theory Spec2Isabelle
  imports Complex_Main "HOL-Library.AList" "HOL-Library.Char_ord" "HOL-Library.List_Lexorder"
begin

section \<open>Trace records\<close>

text \<open>
  A trace record is a JSON object. The fields the code reads are modelled, each with the
  ways it can be missing: \<open>tracing.outputs\<close> and \<open>outputs.messages\<close> may be absent,
  an output's \<open>tool_calls\<close> key may be absent, present with a falsy value (\<open>null\<close>),
  or present with an array. Argument values are opaque to the extraction code and are kept as text.
  A field whose name is taken in the logic carries a prefix: \<open>tr_id\<close> is \<open>tracing.id\<close>,
  \<open>tc_id\<close>, \<open>tc_name\<close>, \<open>tc_type\<close> and \<open>tc_args\<close> are the fields of a request.
\<close>

datatype error = TypeError

datatype ident = NumId nat | StrId string

datatype 'a field = Absent | Falsy | Present 'a

record toolCall =
  tc_id :: string
  tc_name :: string
  tc_type :: "string option"
  tc_args :: "string option"

record output_msg =
  tool_calls :: "toolCall list field"
  tool_call_id :: "string option"
  status :: "string option"
  content :: "string option"

record outputs_obj =
  messages :: "output_msg list option"

record tracing =
  tr_id :: "ident option"
  outputs :: "outputs_obj option"
  score :: "real option"

section \<open>Containers of the host language\<close>

text \<open>
  A JavaScript \<open>Set\<close> iterates in insertion order and ignores a value it already holds.
  A \<open>Map\<close> iterates in the order its keys were first inserted; setting an existing key
  replaces the value and keeps the position, which is what \<^const>\<open>AList.update\<close> does
  on an association list.
\<close>

definition set_add :: "'a \<Rightarrow> 'a list \<Rightarrow> 'a list" where
  "set_add x xs = (if x \<in> set xs then xs else xs @ [x])"

text \<open>\<open>forEach\<close> with a callback that may throw: the first exception ends the loop.\<close>

fun forEach :: "('a \<Rightarrow> 's \<Rightarrow> error + 's) \<Rightarrow> 'a list \<Rightarrow> 's \<Rightarrow> error + 's" where
  "forEach f [] s = Inr s"
| "forEach f (x # xs) s = (case f x s of Inl e \<Rightarrow> Inl e | Inr s' \<Rightarrow> forEach f xs s')"

section \<open>Intersection-matrix extraction: getTools\<close>

record toolCallInfo =
  ci_id :: string
  ci_name :: string
  ci_type :: "string option"
  ci_args :: "string option"
  ci_status :: "string option"
  ci_content :: "string option"

record tracingEntry =
  toolCalls :: "(string \<times> toolCallInfo) list"
  entry_score :: "real option"

record getTools_result =
  tools :: "string list"
  tracingToolCalls :: "(ident option \<times> tracingEntry) list"

text \<open>
  The loop state of one tracing: the global tool set, the tracing's own \<open>toolCalls\<close> map
  and the console (the outputs logged as unknown).
\<close>

type_synonym getTools_state = "string list \<times> (string \<times> toolCallInfo) list \<times> output_msg list"

fun getTools_toolCall :: "toolCall \<Rightarrow> getTools_state \<Rightarrow> getTools_state" where
  "getTools_toolCall tc (tls, calls, con) =
     (let toolCallId = tc_id tc;
          toolCallInfo = \<lparr>ci_id = toolCallId, ci_name = tc_name tc, ci_type = tc_type tc,
                          ci_args = tc_args tc, ci_status = None, ci_content = None\<rparr>
      in (set_add (ci_name toolCallInfo) tls, AList.update toolCallId toolCallInfo calls, con))"

fun getTools_output :: "output_msg \<Rightarrow> getTools_state \<Rightarrow> error + getTools_state" where
  "getTools_output out (tls, calls, con) =
     (case tool_calls out of
        Present tcs \<Rightarrow> Inr (fold getTools_toolCall tcs (tls, calls, con))
      | Falsy \<Rightarrow> Inl TypeError
      | Absent \<Rightarrow>
          (case tool_call_id out of
             Some toolCallId \<Rightarrow>
               (case map_of calls toolCallId of
                  Some toolCallInfo \<Rightarrow>
                    Inr (tls,
                         AList.update toolCallId
                           (toolCallInfo\<lparr>ci_status := status out, ci_content := content out\<rparr>) calls,
                         con)
                | None \<Rightarrow> Inr (tls, calls, con))
           | None \<Rightarrow> Inr (tls, calls, con @ [out])))"

type_synonym getTools_acc = "string list \<times> (ident option \<times> tracingEntry) list \<times> output_msg list"

fun getTools_tracing :: "tracing \<Rightarrow> getTools_acc \<Rightarrow> error + getTools_acc" where
  "getTools_tracing t (tls, ttc, con) =
     (case outputs t of
        None \<Rightarrow> Inl TypeError
      | Some os \<Rightarrow>
          (case messages os of
             None \<Rightarrow> Inl TypeError
           | Some outs \<Rightarrow>
               (case forEach getTools_output outs (tls, [], con) of
                  Inl e \<Rightarrow> Inl e
                | Inr (tls', calls, con') \<Rightarrow>
                    Inr (tls',
                         AList.update (tr_id t) \<lparr>toolCalls = calls, entry_score = score t\<rparr> ttc,
                         con'))))"

text \<open>
  The result of the call together with what it wrote to the console. A call that throws is
  represented by its exception alone.
\<close>

definition getTools :: "tracing list \<Rightarrow> error + (getTools_result \<times> output_msg list)" where
  "getTools tracings =
     (case forEach getTools_tracing tracings ([], [], []) of
        Inl e \<Rightarrow> Inl e
      | Inr (tls, ttc, con) \<Rightarrow> Inr (\<lparr>tools = tls, tracingToolCalls = ttc\<rparr>, con))"

section \<open>Order-graph extraction: extractToolCallOrder\<close>

record callEntry =
  ce_id :: string
  ce_name :: string
  ce_index :: nat
  ce_args :: "string option"
  ce_outputIndex :: nat

text \<open>The loop state: \<open>toolCallMap\<close> and \<open>callIndex\<close>.\<close>

type_synonym order_state = "(string \<times> callEntry) list \<times> nat"

fun order_toolCall :: "nat \<Rightarrow> toolCall \<Rightarrow> order_state \<Rightarrow> order_state" where
  "order_toolCall outputIndex tc (toolCallMap, callIndex) =
     (let toolCallId = tc_id tc; toolName = tc_name tc
      in if map_of toolCallMap toolCallId = None
         then (AList.update toolCallId
                 \<lparr>ce_id = toolCallId, ce_name = toolName, ce_index = callIndex,
                  ce_args = tc_args tc, ce_outputIndex = outputIndex\<rparr> toolCallMap,
               Suc callIndex)
         else (toolCallMap, callIndex))"

text \<open>
  The guard \<open>"tool_calls" in output && output.tool_calls\<close> lets only a present, truthy
  \<open>tool_calls\<close> through (an empty array is truthy).
\<close>

fun order_output :: "nat \<times> output_msg \<Rightarrow> order_state \<Rightarrow> order_state" where
  "order_output (outputIndex, out) st =
     (case tool_calls out of
        Present tcs \<Rightarrow> fold (order_toolCall outputIndex) tcs st
      | _ \<Rightarrow> st)"

definition order_toolCallMap :: "output_msg list \<Rightarrow> order_state" where
  "order_toolCallMap outs = fold order_output (enumerate 0 outs) ([], 0)"

record orderNode =
  n_id :: string
  n_name :: string
  n_index :: nat
  n_callIndex :: nat

record orderLink =
  l_source :: string
  l_target :: string
  l_weight :: nat

record orderGraph =
  nodes :: "orderNode list"
  links :: "orderLink list"

text \<open>
  The link loop runs for \<open>i < orderedCalls.length - 1\<close>; with no calls the bound is \<open>-1\<close>
  and the loop body never runs, as with the truncated subtraction on \<open>nat\<close>.
\<close>

definition extractToolCallOrder :: "tracing \<Rightarrow> orderGraph" where
  "extractToolCallOrder t =
     (case outputs t of
        None \<Rightarrow> \<lparr>nodes = [], links = []\<rparr>
      | Some os \<Rightarrow>
          (case messages os of
             None \<Rightarrow> \<lparr>nodes = [], links = []\<rparr>
           | Some outs \<Rightarrow>
               (let toolCallMap = fst (order_toolCallMap outs);
                    orderedCalls = sort_key ce_index (map snd toolCallMap)
                in \<lparr>nodes =
                      map (\<lambda>(idx, call).
                             \<lparr>n_id = ce_id call, n_name = ce_name call, n_index = idx,
                              n_callIndex = ce_index call\<rparr>)
                          (enumerate 0 orderedCalls),
                    links =
                      map (\<lambda>i. \<lparr>l_source = ce_id (orderedCalls ! i),
                                 l_target = ce_id (orderedCalls ! (i + 1)),
                                 l_weight = 1\<rparr>)
                          [0..<length orderedCalls - 1]\<rparr>)))"

section \<open>Flow-graph extraction: extractToolCallFlow\<close>

text \<open>The loop state: \<open>toolCallMap\<close>, \<open>callIndex\<close> and \<open>callSequence\<close>.\<close>

type_synonym flow_state = "(string \<times> callEntry) list \<times> nat \<times> string list"

fun flow_toolCall :: "nat \<Rightarrow> toolCall \<Rightarrow> flow_state \<Rightarrow> flow_state" where
  "flow_toolCall outputIndex tc (toolCallMap, callIndex, callSequence) =
     (let toolCallId = tc_id tc; toolName = tc_name tc
      in if map_of toolCallMap toolCallId = None
         then (AList.update toolCallId
                 \<lparr>ce_id = toolCallId, ce_name = toolName, ce_index = callIndex,
                  ce_args = tc_args tc, ce_outputIndex = outputIndex\<rparr> toolCallMap,
               Suc callIndex,
               callSequence @ [toolName])
         else (toolCallMap, callIndex, callSequence))"

fun flow_output :: "nat \<times> output_msg \<Rightarrow> flow_state \<Rightarrow> flow_state" where
  "flow_output (outputIndex, out) st =
     (case tool_calls out of
        Present tcs \<Rightarrow> fold (flow_toolCall outputIndex) tcs st
      | _ \<Rightarrow> st)"

definition flow_callSequence :: "output_msg list \<Rightarrow> string list" where
  "flow_callSequence outs = snd (snd (fold flow_output (enumerate 0 outs) ([], 0, [])))"

record flowNode =
  fn_id :: string
  fn_name :: string
  fn_index :: nat
  fn_count :: nat

record flowLink =
  e_source :: string
  e_target :: string
  e_weight :: nat
  e_sequence :: "nat \<times> nat"

text \<open>The early return carries no \<open>callSequence\<close> property.\<close>

record flowGraph =
  f_nodes :: "flowNode list"
  f_links :: "flowLink list"
  f_callSequence :: "string list option"

definition edgeKey :: "string \<Rightarrow> string \<Rightarrow> string" where
  "edgeKey source target = source @ ''->'' @ target"

definition flow_edge :: "string list \<Rightarrow> nat \<Rightarrow> (string \<times> flowLink) list \<Rightarrow> (string \<times> flowLink) list" where
  "flow_edge callSequence i edgeMap =
     (let source = callSequence ! i; target = callSequence ! (i + 1);
          k = edgeKey source target
      in case map_of edgeMap k of
           Some e \<Rightarrow> AList.update k (e\<lparr>e_weight := e_weight e + 1\<rparr>) edgeMap
         | None \<Rightarrow>
             AList.update k
               \<lparr>e_source = source, e_target = target, e_weight = 1, e_sequence = (i, i + 1)\<rparr>
               edgeMap)"

definition flow_edgeMap :: "string list \<Rightarrow> (string \<times> flowLink) list" where
  "flow_edgeMap callSequence = fold (flow_edge callSequence) [0..<length callSequence - 1] []"

definition extractToolCallFlow :: "tracing \<Rightarrow> flowGraph" where
  "extractToolCallFlow t =
     (case outputs t of
        None \<Rightarrow> \<lparr>f_nodes = [], f_links = [], f_callSequence = None\<rparr>
      | Some os \<Rightarrow>
          (case messages os of
             None \<Rightarrow> \<lparr>f_nodes = [], f_links = [], f_callSequence = None\<rparr>
           | Some outs \<Rightarrow>
               (let callSequence = flow_callSequence outs;
                    uniqueToolNames = fold set_add callSequence []
                in \<lparr>f_nodes =
                      map (\<lambda>(idx, name).
                             \<lparr>fn_id = name, fn_name = name, fn_index = idx,
                              fn_count = length (filter (\<lambda>n. n = name) callSequence)\<rparr>)
                          (enumerate 0 uniqueToolNames),
                    f_links = map snd (flow_edgeMap callSequence),
                    f_callSequence = Some callSequence\<rparr>)))"

section \<open>Glyph assignment: createGlyphSystem\<close>

definition availableGlyphs :: "string list" where
  "availableGlyphs =
     [''circle'', ''cross'', ''diamond'', ''square'', ''triangle'', ''star'', ''wye'', ''plus'',
      ''times'']"

text \<open>
  The taxonomy is an object: its own keys in the order the object enumerates them, each with
  an array of tool names or a falsy value (read as the empty array by \<open>|| []\<close>). The keys of
  an object are distinct.
\<close>

type_synonym toolSets = "(string \<times> string list option) list"

record glyphSystem =
  getGlyph :: "string \<Rightarrow> string"
  getGroup :: "string \<Rightarrow> string"
  getAllGroups :: "string list"
  getGroupGlyph :: "string \<Rightarrow> string"

definition group_tools :: "toolSets \<Rightarrow> string \<Rightarrow> string list" where
  "group_tools toolSets groupName =
     (case map_of toolSets groupName of Some (Some tls) \<Rightarrow> tls | _ \<Rightarrow> [])"

definition build_toolToGroup :: "toolSets \<Rightarrow> string list \<Rightarrow> (string \<times> string) list" where
  "build_toolToGroup toolSets groupNames =
     fold (\<lambda>groupName m.
             fold (\<lambda>toolName m'. AList.update toolName groupName m')
                  (group_tools toolSets groupName) m)
          groupNames []"

definition build_groupToGlyph :: "string list \<Rightarrow> (string \<times> string) list" where
  "build_groupToGlyph groupNames =
     fold (\<lambda>(index, groupName) m.
             AList.update groupName (availableGlyphs ! (index mod length availableGlyphs)) m)
          (enumerate 0 groupNames) []"

text \<open>\<open>a || b\<close> on strings: the empty string is falsy, as is a missing map entry.\<close>

definition or_else :: "string option \<Rightarrow> string \<Rightarrow> string" where
  "or_else v d = (case v of None \<Rightarrow> d | Some s \<Rightarrow> if s = [] then d else s)"

definition createGlyphSystem :: "toolSets \<Rightarrow> glyphSystem" where
  "createGlyphSystem toolSets =
     (let groupNames = sort (map fst toolSets);
          toolToGroup = build_toolToGroup toolSets groupNames;
          groupToGlyph = build_groupToGlyph groupNames
      in \<lparr>getGlyph =
            (\<lambda>toolName.
               case map_of toolToGroup toolName of
                 None \<Rightarrow> ''circle''
               | Some grp \<Rightarrow>
                   if grp = [] then ''circle'' else or_else (map_of groupToGlyph grp) ''circle''),
          getGroup = (\<lambda>toolName. or_else (map_of toolToGroup toolName) ''unknown''),
          getAllGroups = map fst groupToGlyph,
          getGroupGlyph = (\<lambda>groupName. or_else (map_of groupToGlyph groupName) ''circle'')\<rparr>)"

section \<open>Rendering the intersection view: renderUpsetPlot\<close>

text \<open>
  \<open>assignIdsToTracings\<close> maps every record to a copy made with the spread operator, with
  \<open>id\<close> set to the position of the record; the copy keeps every other field, also those
  the code never reads (the \<open>more\<close> part of the record).
\<close>

definition assignIdsToTracings :: "'a tracing_scheme list \<Rightarrow> 'a tracing_scheme list" where
  "assignIdsToTracings tracings =
     map (\<lambda>(index, tracing). tracing\<lparr>tr_id := Some (NumId index)\<rparr>) (enumerate 0 tracings)"

text \<open>
  \<open>Math.random\<close> is modelled by the sequence of values it returns, \<open>random k\<close> being the
  value of call number \<open>k\<close>, and by the number of calls made so far. The product by 200
  and the quotient by 100 are taken in the reals, where the code rounds each to a double; the
  two agree on draws such as 0 and 1/2, whose product with 200 is exact.
\<close>

record upperDatum =
  toolName :: string
  shapleyValue :: real

record lowerDatum =
  ld_id :: "ident option"
  ld_score :: "real option"

definition ProfileUpperBarChart :: "(nat \<Rightarrow> real) \<Rightarrow> nat \<Rightarrow> string list \<Rightarrow> upperDatum list \<times> nat" where
  "ProfileUpperBarChart random n tls =
     (map (\<lambda>(i, tool).
             \<lparr>toolName = tool,
              shapleyValue = (of_int \<lfloor>random (n + i) * 200\<rfloor> - 100) / 100\<rparr>)
          (enumerate 0 tls),
      n + length tls)"

definition ProfileLowerBarChart :: "(ident option \<times> tracingEntry) list \<Rightarrow> lowerDatum list" where
  "ProfileLowerBarChart ttc =
     map (\<lambda>(tracingId, entry). \<lparr>ld_id = tracingId, ld_score = entry_score entry\<rparr>) ttc"

text \<open>
  The recognised options; \<open>None\<close> is a key that is absent (for \<open>width\<close> and \<open>height\<close>,
  read with \<open>??\<close>, also one that is \<open>null\<close>). The four margin fields are the keys of
  \<open>options.margin\<close>.
\<close>

record options =
  opt_width :: "real option"
  opt_height :: "real option"
  opt_top :: "real option"
  opt_right :: "real option"
  opt_bottom :: "real option"
  opt_left :: "real option"

definition nullish :: "'a option \<Rightarrow> 'a \<Rightarrow> 'a" where
  "nullish v d = (case v of None \<Rightarrow> d | Some x \<Rightarrow> x)"

text \<open>
  What is drawn. The three drawing routines (\<open>renderToolImportanceBars\<close>,
  \<open>renderCoverageGrid\<close>, \<open>renderScoreRail\<close>) read no state but their arguments, so the
  populated view is represented by the values \<open>renderUpsetPlot\<close> computes and hands to them:
  the data bound to the elements and the domains and ranges of the scales.
\<close>

record plot =
  p_tools :: "string list"
  p_upper :: "upperDatum list"
  p_lower :: "lowerDatum list"
  p_rows :: "ident option list"
  p_toolCalls :: "(ident option \<times> tracingEntry) list"
  p_glyphs :: "(string \<times> string \<times> string) list"
  p_margin :: "real \<times> real \<times> real \<times> real"
  p_matrixWidth :: real
  p_scoreWidth :: real
  p_matrixTop :: real
  p_matrixHeight :: real
  p_shapleyDomain :: "real \<times> real"
  p_maxScore :: real

datatype svg_child = NoDataText real real | Plot plot

datatype node = Svg real real "svg_child list" | TooltipDiv | Foreign string

datatype log = LogUnknown output_msg
  | LogTools "string list" "(ident option \<times> tracingEntry) list"
  | LogBars "upperDatum list" "lowerDatum list"

text \<open>
  The state a render works on: the children and the \<open>position\<close> style of the mount point,
  the number of \<open>Math.random\<close> calls made so far, and the console.
\<close>

record world =
  children :: "node list"
  position :: "string option"
  random_calls :: nat
  console :: "log list"

text \<open>\<open>d3.extent\<close> of the bar values, with the fallbacks \<open>?? -1\<close> and \<open>?? 1\<close>, widened to hold zero.\<close>

definition shapleyDomain :: "upperDatum list \<Rightarrow> real \<times> real" where
  "shapleyDomain upper =
     (let vs = map shapleyValue upper;
          shapleyMin = (if vs = [] then - 1 else fold min (tl vs) (hd vs));
          shapleyMax = (if vs = [] then 1 else fold max (tl vs) (hd vs))
      in (min shapleyMin 0, max shapleyMax 0))"

text \<open>\<open>d3.max(lowerBarChartData, d => d.score) || 1\<close>: missing scores are skipped, and a
  maximum that is missing or zero is replaced by 1.\<close>

definition maxScore :: "lowerDatum list \<Rightarrow> real" where
  "maxScore lower =
     (let vs = concat (map (\<lambda>d. case ld_score d of None \<Rightarrow> [] | Some v \<Rightarrow> [v]) lower)
      in if vs = [] then 1
         else (let m = fold max (tl vs) (hd vs) in if m = 0 then 1 else m))"

text \<open>
  \<open>container = False\<close> is a falsy mount point. \<open>data = None\<close> is a missing list: the call
  \<open>data.map\<close> in \<open>assignIdsToTracings\<close> throws before the later test \<open>!data\<close> is reached.
  The console keeps the lines of the calls that return.
\<close>

definition renderUpsetPlot ::
  "(nat \<Rightarrow> real) \<Rightarrow> bool \<Rightarrow> tracing list option \<Rightarrow> toolSets \<Rightarrow> options \<Rightarrow> world \<Rightarrow> error + world" where
  "renderUpsetPlot random container data toolSets opts w =
     (if \<not> container then Inr w
      else case data of
        None \<Rightarrow> Inl TypeError
      | Some d \<Rightarrow>
          (let tracings = assignIdsToTracings d
           in case getTools tracings of
                Inl e \<Rightarrow> Inl e
              | Inr (r, unknown) \<Rightarrow>
                  (let glyphSystem = createGlyphSystem toolSets;
                       (upperBarChartData, n') =
                          ProfileUpperBarChart random (random_calls w) (tools r);
                       lowerBarChartData = ProfileLowerBarChart (tracingToolCalls r);
                       width = nullish (opt_width opts) 640;
                       mtop = nullish (opt_top opts) 80;
                       mright = nullish (opt_right opts) 24;
                       mbottom = nullish (opt_bottom opts) 40;
                       mleft = nullish (opt_left opts) 80;
                       minRowHeight = 20;
                       topBarHeightFixed = 200;
                       numTracings = real (length tracings);
                       matrixHeightRequired = max (numTracings * minRowHeight) 100;
                       calculatedHeight = mtop + topBarHeightFixed + matrixHeightRequired + mbottom;
                       height = nullish (opt_height opts) calculatedHeight;
                       content =
                         (if length d = 0 then [NoDataText (width / 2) (height / 2)]
                          else
                            (let innerWidth = width - mleft - mright;
                                 innerHeight = height - mtop - mbottom;
                                 matrixHeight = innerHeight - topBarHeightFixed;
                                 matrixWidth = innerWidth * (3 / 4);
                                 scoreWidth = innerWidth - matrixWidth
                             in [Plot \<lparr>p_tools = tools r,
                                       p_upper = upperBarChartData,
                                       p_lower = lowerBarChartData,
                                       p_rows = map tr_id tracings,
                                       p_toolCalls = tracingToolCalls r,
                                       p_glyphs =
                                         map (\<lambda>tool. (tool, getGlyph glyphSystem tool,
                                                       getGroup glyphSystem tool)) (tools r),
                                       p_margin = (mtop, mright, mbottom, mleft),
                                       p_matrixWidth = matrixWidth,
                                       p_scoreWidth = scoreWidth,
                                       p_matrixTop = topBarHeightFixed,
                                       p_matrixHeight = matrixHeight,
                                       p_shapleyDomain = shapleyDomain upperBarChartData,
                                       p_maxScore = maxScore lowerBarChartData\<rparr>]))
                   in Inr \<lparr>children = [Svg width height content, TooltipDiv],
                           position = Some ''relative'',
                           random_calls = n',
                           console = console w @ map LogUnknown unknown
                                     @ [LogTools (tools r) (tracingToolCalls r),
                                        LogBars upperBarChartData lowerBarChartData]\<rparr>)))"

text \<open>The importance bars of a view, for reading a result.\<close>

fun plot_bars :: "node list \<Rightarrow> upperDatum list" where
  "plot_bars (Svg _ _ [Plot p] # _) = p_upper p"
| "plot_bars _ = []"

text \<open>A source of random values whose first draw is 0 and whose later draws are 1/2.\<close>

definition sample_random :: "nat \<Rightarrow> real" where
  "sample_random k = (if k = 0 then 0 else 1 / 2)"

definition no_options :: options where
  "no_options =
     \<lparr>opt_width = None, opt_height = None, opt_top = None, opt_right = None,
      opt_bottom = None, opt_left = None\<rparr>"

definition empty_world :: world where
  "empty_world = \<lparr>children = [], position = None, random_calls = 0, console = []\<rparr>"

text \<open>Two records that carry ids of their own.\<close>

definition sample_with_ids :: "tracing list" where
  "sample_with_ids =
     [\<lparr>tr_id = Some (StrId ''run-7''), outputs = None, score = None\<rparr>,
      \<lparr>tr_id = Some (NumId 7), outputs = None, score = Some 1\<rparr>]"

section \<open>Notions used to state the properties\<close>

text \<open>
  The functions of this section are not part of the program. They name what the theorems
  speak about: the requests of a trace in the order the loops visit them, the order of first
  occurrence, and the inputs on which \<open>getTools\<close> does not throw.
\<close>

text \<open>The tool-call requests of an output, and of a tracing in the order the loops visit them.\<close>

definition output_calls :: "output_msg \<Rightarrow> toolCall list" where
  "output_calls out = (case tool_calls out of Present tcs \<Rightarrow> tcs | _ \<Rightarrow> [])"

definition tracing_messages :: "tracing \<Rightarrow> output_msg list" where
  "tracing_messages t =
     (case outputs t of None \<Rightarrow> [] | Some os \<Rightarrow> (case messages os of None \<Rightarrow> [] | Some outs \<Rightarrow> outs))"

definition tracing_calls :: "tracing \<Rightarrow> toolCall list" where
  "tracing_calls t = concat (map output_calls (tracing_messages t))"

definition all_tool_names :: "tracing list \<Rightarrow> string list" where
  "all_tool_names tracings = map tc_name (concat (map tracing_calls tracings))"

text \<open>First-seen order: every value once, at the place of its first occurrence.\<close>

definition first_seen :: "'a list \<Rightarrow> 'a list" where
  "first_seen xs = rev (remdups (rev xs))"

text \<open>The requests of the outputs, each with the position of its output (counted from \<open>n\<close>).\<close>

definition indexed_calls :: "nat \<Rightarrow> output_msg list \<Rightarrow> (nat \<times> toolCall) list" where
  "indexed_calls n outs =
     concat (map (\<lambda>(i, out). map (Pair i) (output_calls out)) (enumerate n outs))"

text \<open>
  \<open>getTools\<close> reads \<open>tracing.outputs.messages\<close> unguarded and calls \<open>forEach\<close> on every
  \<open>tool_calls\<close> value whose key is present.
\<close>

definition wf_output :: "output_msg \<Rightarrow> bool" where
  "wf_output out = (tool_calls out \<noteq> Falsy)"

definition wf_tracing :: "tracing \<Rightarrow> bool" where
  "wf_tracing t =
     (case outputs t of
        None \<Rightarrow> False
      | Some os \<Rightarrow> (case messages os of None \<Rightarrow> False | Some outs \<Rightarrow> list_all wf_output outs))"

section \<open>Sample inputs\<close>

text \<open>Two runs: the first calls \<open>search\<close> and \<open>read\<close>, the second only \<open>search\<close>.\<close>

definition sample_traceA :: tracing where
  "sample_traceA =
     \<lparr>tr_id = Some (NumId 0),
      outputs = Some \<lparr>messages = Some
        [\<lparr>tool_calls = Present
            [\<lparr>tc_id = ''c1'', tc_name = ''search'', tc_type = None, tc_args = None\<rparr>,
             \<lparr>tc_id = ''c2'', tc_name = ''read'', tc_type = None, tc_args = None\<rparr>],
          tool_call_id = None, status = None, content = None\<rparr>]\<rparr>,
      score = Some 1\<rparr>"

definition sample_traceB :: tracing where
  "sample_traceB =
     \<lparr>tr_id = Some (NumId 1),
      outputs = Some \<lparr>messages = Some
        [\<lparr>tool_calls = Present
            [\<lparr>tc_id = ''c1'', tc_name = ''search'', tc_type = None, tc_args = None\<rparr>],
          tool_call_id = None, status = None, content = None\<rparr>]\<rparr>,
      score = Some 1\<rparr>"

text \<open>
  One run in which the call id \<open>c1\<close> is requested twice, first for tool \<open>A\<close> and, after
  its result has arrived, again for tool \<open>Z\<close>.
\<close>

definition sample_dup :: tracing where
  "sample_dup =
     \<lparr>tr_id = None,
      outputs = Some \<lparr>messages = Some
        [\<lparr>tool_calls = Present
            [\<lparr>tc_id = ''c1'', tc_name = ''A'', tc_type = None, tc_args = Some ''x=1''\<rparr>,
             \<lparr>tc_id = ''c2'', tc_name = ''B'', tc_type = None, tc_args = None\<rparr>],
          tool_call_id = None, status = None, content = None\<rparr>,
         \<lparr>tool_calls = Absent, tool_call_id = Some ''c1'', status = Some ''ok'',
          content = Some ''r1''\<rparr>,
         \<lparr>tool_calls = Present
            [\<lparr>tc_id = ''c1'', tc_name = ''Z'', tc_type = None, tc_args = Some ''x=2''\<rparr>,
             \<lparr>tc_id = ''c3'', tc_name = ''A'', tc_type = None, tc_args = None\<rparr>],
          tool_call_id = None, status = None, content = None\<rparr>]\<rparr>,
      score = None\<rparr>"

text \<open>Builders for sample runs: a request, and an output that emits requests.\<close>

definition request :: "string \<Rightarrow> string \<Rightarrow> toolCall" where
  "request cid name = \<lparr>tc_id = cid, tc_name = name, tc_type = None, tc_args = None\<rparr>"

definition call_event :: "toolCall list \<Rightarrow> output_msg" where
  "call_event tcs = \<lparr>tool_calls = Present tcs, tool_call_id = None, status = None, content = None\<rparr>"

definition run_of :: "output_msg list \<Rightarrow> tracing" where
  "run_of outs = \<lparr>tr_id = None, outputs = Some \<lparr>messages = Some outs\<rparr>, score = None\<rparr>"

text \<open>A run whose call sequence is A, B, A, B, C.\<close>

definition sample_flow :: tracing where
  "sample_flow =
     run_of [call_event [request ''1'' ''A'', request ''2'' ''B''],
             call_event [request ''3'' ''A''],
             call_event [request ''4'' ''B'', request ''5'' ''C'']]"

text \<open>A run whose tool names contain the separator of the edge key.\<close>

definition sample_arrow :: tracing where
  "sample_arrow =
     run_of [call_event [request ''1'' ''a'', request ''2'' ''b->c'',
                         request ''3'' ''a->b'', request ''4'' ''c'']]"

text \<open>A taxonomy of two groups, written with the later group name first.\<close>

definition sample_toolSets :: toolSets where
  "sample_toolSets =
     [(''literature_tools'', Some [''query_table'', ''literature_trends'']),
      (''data_tools'', Some [''csv_read'', ''csv_join''])]"

text \<open>A result whose \<open>tool_call_id\<close> no request of the run carries, and a run that holds it.\<close>

definition dangling_result :: output_msg where
  "dangling_result =
     \<lparr>tool_calls = Absent, tool_call_id = Some ''x'', status = Some ''ok'', content = Some ''late''\<rparr>"

definition sample_dangling :: tracing where
  "sample_dangling =
     run_of [call_event [request ''c1'' ''A''], dangling_result, call_event [request ''c2'' ''B'']]"

text \<open>A record with no \<open>outputs\<close> field, and one whose \<open>outputs\<close> has no \<open>messages\<close>.\<close>

definition sample_no_outputs :: tracing where
  "sample_no_outputs = \<lparr>tr_id = Some (NumId 0), outputs = None, score = Some 1\<rparr>"

definition sample_no_messages :: tracing where
  "sample_no_messages =
     \<lparr>tr_id = Some (NumId 0), outputs = Some \<lparr>messages = None\<rparr>, score = Some 1\<rparr>"

section \<open>First-seen order\<close>

lemma first_seen_Nil [simp]: "first_seen [] = []"
  by (simp add: first_seen_def)

lemma remdups_snoc: "remdups (ys @ [x]) = filter (\<lambda>y. y \<noteq> x) (remdups ys) @ [x]"
  by (induction ys) auto

lemma first_seen_Cons: "first_seen (x # xs) = x # filter (\<lambda>y. y \<noteq> x) (first_seen xs)"
  by (simp add: first_seen_def remdups_snoc rev_filter)

lemma set_add_mem: "x \<in> set xs \<Longrightarrow> set_add x xs = xs"
  by (simp add: set_add_def)

lemma set_add_new: "x \<notin> set xs \<Longrightarrow> set_add x xs = xs @ [x]"
  by (simp add: set_add_def)

lemma distinct_first_seen [simp]: "distinct (first_seen xs)"
  by (simp add: first_seen_def)

lemma set_first_seen [simp]: "set (first_seen xs) = set xs"
  by (simp add: first_seen_def)

lemma fold_set_add:
  "fold set_add xs acc = acc @ filter (\<lambda>x. x \<notin> set acc) (first_seen xs)"
proof (induction xs arbitrary: acc)
  case Nil
  show ?case by simp
next
  case (Cons x xs)
  show ?case
  proof (cases "x \<in> set acc")
    case True
    then have "(\<lambda>y. y \<noteq> x \<and> y \<notin> set acc) = (\<lambda>y. y \<notin> set acc)" by auto
    with True show ?thesis
      by (simp add: Cons.IH set_add_mem first_seen_Cons conj_commute)
  next
    case False
    then show ?thesis
      by (simp add: Cons.IH set_add_new first_seen_Cons conj_commute)
  qed
qed

lemma fold_getTools_toolCall_tools:
  "fst (fold getTools_toolCall tcs st) = fold set_add (map tc_name tcs) (fst st)"
  by (induction tcs arbitrary: st) (auto simp: Let_def)

lemma getTools_output_tools:
  "getTools_output out st = Inr st' \<Longrightarrow>
   fst st' = fold set_add (map tc_name (output_calls out)) (fst st)"
  by (cases st) (auto simp: output_calls_def fold_getTools_toolCall_tools
      split: field.splits option.splits)

lemma forEach_getTools_output_tools:
  "forEach getTools_output outs st = Inr st' \<Longrightarrow>
   fst st' = fold set_add (map tc_name (concat (map output_calls outs))) (fst st)"
proof (induction outs arbitrary: st)
  case Nil
  then show ?case by simp
next
  case (Cons out outs)
  then show ?case
    by (auto split: sum.splits dest!: getTools_output_tools)
qed

lemma getTools_tracing_tools:
  "getTools_tracing t acc = Inr acc' \<Longrightarrow>
   fst acc' = fold set_add (map tc_name (tracing_calls t)) (fst acc)"
  by (cases acc)
     (auto simp: tracing_calls_def tracing_messages_def
           split: option.splits sum.splits dest!: forEach_getTools_output_tools)

lemma forEach_getTools_tracing_tools:
  "forEach getTools_tracing ts acc = Inr acc' \<Longrightarrow>
   fst acc' = fold set_add (all_tool_names ts) (fst acc)"
proof (induction ts arbitrary: acc)
  case Nil
  then show ?case by (simp add: all_tool_names_def)
next
  case (Cons t ts)
  then show ?case
    by (auto simp: all_tool_names_def split: sum.splits dest!: getTools_tracing_tools)
qed

lemma getTools_tools:
  assumes "getTools tracings = Inr (r, con)"
  shows "tools r = first_seen (all_tool_names tracings)"
proof -
  from assms obtain ttc where
    "forEach getTools_tracing tracings ([], [], []) = Inr (tools r, ttc, con)"
    by (auto simp: getTools_def split: sum.splits)
  from forEach_getTools_tracing_tools [OF this]
  show ?thesis
    by (simp add: fold_set_add)
qed

lemma getTools_output_returns:
  "wf_output out \<Longrightarrow> \<not> isl (getTools_output out st)"
  by (cases st) (simp add: wf_output_def split: field.splits option.splits)

lemma forEach_getTools_output_returns:
  "list_all wf_output outs \<Longrightarrow> \<not> isl (forEach getTools_output outs st)"
proof (induction outs arbitrary: st)
  case Nil
  show ?case by simp
next
  case (Cons out outs)
  from Cons.prems have "\<not> isl (getTools_output out st)"
    by (simp add: getTools_output_returns)
  with Cons show ?case by (auto split: sum.splits)
qed

lemma getTools_tracing_returns:
  "wf_tracing t \<Longrightarrow> \<not> isl (getTools_tracing t acc)"
proof -
  assume wf: "wf_tracing t"
  obtain tls ttc con where acc: "acc = (tls, ttc, con)"
    by (cases acc) auto
  from wf obtain os outs where
    o: "outputs t = Some os" "messages os = Some outs" "list_all wf_output outs"
    by (auto simp: wf_tracing_def split: option.splits)
  have "\<not> isl (forEach getTools_output outs (tls, [], con))"
    by (rule forEach_getTools_output_returns [OF o(3)])
  with o acc show ?thesis by (auto split: sum.splits)
qed

lemma forEach_getTools_tracing_returns:
  "list_all wf_tracing ts \<Longrightarrow> \<not> isl (forEach getTools_tracing ts acc)"
proof (induction ts arbitrary: acc)
  case Nil
  show ?case by simp
next
  case (Cons t ts)
  from Cons.prems have "\<not> isl (getTools_tracing t acc)"
    by (simp add: getTools_tracing_returns)
  with Cons show ?case by (auto split: sum.splits)
qed

lemma getTools_returns:
  assumes "list_all wf_tracing tracings"
  shows "\<exists>r con. getTools tracings = Inr (r, con)"
proof -
  have "\<not> isl (forEach getTools_tracing tracings ([], [], []))"
    by (rule forEach_getTools_tracing_returns [OF assms])
  then show ?thesis
    by (auto simp: getTools_def split: sum.splits prod.splits)
qed


lemma sample_AB_wf: "list_all wf_tracing [sample_traceA, sample_traceB]"
  by (simp add: sample_traceA_def sample_traceB_def wf_tracing_def wf_output_def)

lemma sample_AB_names:
  "all_tool_names [sample_traceA, sample_traceB] = [''search'', ''read'', ''search'']"
  by (simp add: sample_traceA_def sample_traceB_def all_tool_names_def tracing_calls_def
      tracing_messages_def output_calls_def)

text \<open>
  Claim C1. For every list of traces that \<open>getTools\<close> can walk, the call returns and its
  \<open>tools\<close> array holds each tool name exactly once, ordered by the first time the name is
  seen while walking the traces in input order and each trace's outputs in sequence order:
  it is the list of all requested names with every occurrence but the first removed.
\<close>

theorem getTools_tools_first_seen:
  assumes "list_all wf_tracing tracings"
  shows "\<exists>r con. getTools tracings = Inr (r, con)
       \<and> tools r = rev (remdups (rev (all_tool_names tracings)))
       \<and> distinct (tools r)
       \<and> set (tools r) = set (all_tool_names tracings)"
proof -
  from getTools_returns [OF assms] obtain r con where g: "getTools tracings = Inr (r, con)"
    by blast
  have "tools r = first_seen (all_tool_names tracings)"
    by (rule getTools_tools [OF g])
  with g show ?thesis by (simp add: first_seen_def)
qed


theorem getTools_tools_first_seen_witness:
  "list_all wf_tracing [sample_traceA, sample_traceB] \<and>
   (\<exists>r con. getTools [sample_traceA, sample_traceB] = Inr (r, con) \<and>
             tools r = [''search'', ''read''])"
  using getTools_tools_first_seen [OF sample_AB_wf] sample_AB_wf
  by (auto simp: sample_AB_names)

section \<open>The order graph\<close>

lemma update_fresh: "map_of al k = None \<Longrightarrow> AList.update k v al = al @ [(k, v)]"
  by (induction al) (auto split: if_splits)

lemma snd_indexed_calls: "map snd (indexed_calls n outs) = concat (map output_calls outs)"
  by (induction outs arbitrary: n) (simp_all add: indexed_calls_def comp_def)

lemma indexed_calls_Cons:
  "indexed_calls n (out # outs) = map (Pair n) (output_calls out) @ indexed_calls (Suc n) outs"
  by (simp add: indexed_calls_def)

lemma fold_Pair: "fold (\<lambda>(i, tc). f i tc) (map (Pair n) tcs) st = fold (f n) tcs st"
  by (induction tcs arbitrary: st) simp_all

lemma fold_order_output:
  "fold order_output (enumerate n outs) st =
   fold (\<lambda>(i, tc). order_toolCall i tc) (indexed_calls n outs) st"
proof (induction outs arbitrary: n st)
  case Nil
  show ?case by (simp add: indexed_calls_def)
next
  case (Cons out outs)
  have "order_output (n, out) st = fold (order_toolCall n) (output_calls out) st"
    by (simp add: output_calls_def split: field.splits)
  then show ?case
    by (simp add: indexed_calls_Cons fold_Pair Cons.IH)
qed

lemma order_toolCall_new:
  "map_of m (tc_id tc) = None \<Longrightarrow>
   order_toolCall i tc (m, k) =
     (m @ [(tc_id tc, \<lparr>ce_id = tc_id tc, ce_name = tc_name tc, ce_index = k,
                        ce_args = tc_args tc, ce_outputIndex = i\<rparr>)], Suc k)"
  by (simp add: update_fresh Let_def)

lemma order_toolCall_old:
  "map_of m (tc_id tc) = Some e \<Longrightarrow> order_toolCall i tc (m, k) = (m, k)"
  by simp

lemma fold_order_keys:
  "fold (\<lambda>(i, tc). order_toolCall i tc) ps (m, k) = (m', k') \<Longrightarrow>
   map fst m' = fold set_add (map (tc_id \<circ> snd) ps) (map fst m)"
proof (induction ps arbitrary: m k)
  case Nil
  then show ?case by simp
next
  case (Cons p ps)
  obtain i tc where p: "p = (i, tc)" by (cases p)
  show ?case
  proof (cases "map_of m (tc_id tc)")
    case None
    then have notin: "tc_id tc \<notin> set (map fst m)" by (simp add: map_of_eq_None_iff)
    let ?e = "\<lparr>ce_id = tc_id tc, ce_name = tc_name tc, ce_index = k,
             ce_args = tc_args tc, ce_outputIndex = i\<rparr>"
    from None have step: "fold (\<lambda>(i, tc). order_toolCall i tc) ps (m @ [(tc_id tc, ?e)], Suc k) = (m', k')"
      using Cons.prems(1) p by (simp add: order_toolCall_new del: order_toolCall.simps)
    from Cons.IH [OF step] notin p show ?thesis
      by (simp add: set_add_def)
  next
    case (Some e)
    then have "tc_id tc \<in> set (map fst m)"
      using map_of_eq_None_iff [of m "tc_id tc"] by simp
    with Cons.IH [of m k] Cons.prems Some p show ?thesis
      by (simp add: order_toolCall_old set_add_def del: order_toolCall.simps)
  qed
qed

lemma fold_order_index:
  "fold (\<lambda>(i, tc). order_toolCall i tc) ps (m, k) = (m', k') \<Longrightarrow>
   map (ce_index \<circ> snd) m' = map (ce_index \<circ> snd) m @ [k..<k'] \<and> k \<le> k'"
proof (induction ps arbitrary: m k)
  case Nil
  then show ?case by simp
next
  case (Cons p ps)
  obtain i tc where p: "p = (i, tc)" by (cases p)
  show ?case
  proof (cases "map_of m (tc_id tc)")
    case None
    let ?e = "\<lparr>ce_id = tc_id tc, ce_name = tc_name tc, ce_index = k,
             ce_args = tc_args tc, ce_outputIndex = i\<rparr>"
    from None have step: "fold (\<lambda>(i, tc). order_toolCall i tc) ps (m @ [(tc_id tc, ?e)], Suc k) = (m', k')"
      using Cons.prems(1) p by (simp add: order_toolCall_new del: order_toolCall.simps)
    from Cons.IH [OF step] show ?thesis
      by (simp add: upt_conv_Cons)
  next
    case (Some e)
    with Cons.IH [of m k] Cons.prems p show ?thesis
      by (simp add: order_toolCall_old del: order_toolCall.simps)
  qed
qed

lemma fold_order_keep:
  "fold (\<lambda>(i, tc). order_toolCall i tc) ps (m, k) = (m', k') \<Longrightarrow>
   map_of m x = Some e \<Longrightarrow> map_of m' x = Some e"
proof (induction ps arbitrary: m k)
  case Nil
  then show ?case by simp
next
  case (Cons p ps)
  obtain i tc where p: "p = (i, tc)" by (cases p)
  show ?case
  proof (cases "map_of m (tc_id tc)")
    case None
    with Cons.prems have "x \<noteq> tc_id tc" by auto
    with None Cons.prems have
      "map_of (m @ [(tc_id tc, \<lparr>ce_id = tc_id tc, ce_name = tc_name tc, ce_index = k,
                        ce_args = tc_args tc, ce_outputIndex = i\<rparr>)]) x = Some e"
      by (simp add: map_add_def)
    with Cons.IH [of _ "Suc k"] Cons.prems None p show ?thesis
      by (simp add: order_toolCall_new del: order_toolCall.simps)
  next
    case (Some e')
    with Cons.IH [of m k] Cons.prems p show ?thesis
      by (simp add: order_toolCall_old del: order_toolCall.simps)
  qed
qed

lemma fold_order_entry:
  "fold (\<lambda>(i, tc). order_toolCall i tc) ps (m, k) = (m', k') \<Longrightarrow>
   map_of m x = None \<Longrightarrow>
   find (\<lambda>p. tc_id (snd p) = x) ps = Some (i, c) \<Longrightarrow>
   \<exists>j. map_of m' x = Some \<lparr>ce_id = x, ce_name = tc_name c, ce_index = j,
                            ce_args = tc_args c, ce_outputIndex = i\<rparr>"
proof (induction ps arbitrary: m k)
  case Nil
  then show ?case by simp
next
  case (Cons p ps)
  obtain i' tc where p: "p = (i', tc)" by (cases p)
  let ?e = "\<lparr>ce_id = tc_id tc, ce_name = tc_name tc, ce_index = k,
             ce_args = tc_args tc, ce_outputIndex = i'\<rparr>"
  show ?case
  proof (cases "tc_id tc = x")
    case True
    with Cons.prems p have eq: "i = i'" "c = tc" by auto
    from True Cons.prems have none: "map_of m (tc_id tc) = None" by simp
    then have step: "fold (\<lambda>(i, tc). order_toolCall i tc) ps (m @ [(tc_id tc, ?e)], Suc k) = (m', k')"
      using Cons.prems(1) p by (simp add: order_toolCall_new del: order_toolCall.simps)
    have "map_of (m @ [(tc_id tc, ?e)]) x = Some ?e"
      using True none by (simp add: map_add_def)
    from fold_order_keep [OF step this] True eq show ?thesis by auto
  next
    case False
    with Cons.prems p have f: "find (\<lambda>p. tc_id (snd p) = x) ps = Some (i, c)" by simp
    show ?thesis
    proof (cases "map_of m (tc_id tc)")
      case None
      then have step: "fold (\<lambda>(i, tc). order_toolCall i tc) ps (m @ [(tc_id tc, ?e)], Suc k) = (m', k')"
        using Cons.prems(1) p by (simp add: order_toolCall_new del: order_toolCall.simps)
      have "map_of (m @ [(tc_id tc, ?e)]) x = None"
        using False Cons.prems(2) by (simp add: map_add_def)
      from Cons.IH [OF step this f] show ?thesis .
    next
      case (Some e')
      then have step: "fold (\<lambda>(i, tc). order_toolCall i tc) ps (m, k) = (m', k')"
        using Cons.prems(1) p by (simp add: order_toolCall_old del: order_toolCall.simps)
      from Cons.IH [OF step Cons.prems(2) f] show ?thesis .
    qed
  qed
qed


lemma find_map_snd:
  "find P (map f xs) = map_option f (find (\<lambda>x. P (f x)) xs)"
  by (induction xs) simp_all

lemma map_of_nth:
  "distinct (map fst m) \<Longrightarrow> i < length m \<Longrightarrow> map_of m (fst (m ! i)) = Some (snd (m ! i))"
  by (simp add: map_of_is_SomeI)

lemma order_map_keys:
  assumes "order_toolCallMap outs = (m, k)"
  shows "map fst m = first_seen (map tc_id (concat (map output_calls outs)))"
proof -
  from assms have f: "fold (\<lambda>(i, tc). order_toolCall i tc) (indexed_calls 0 outs) ([], 0) = (m, k)"
    by (simp add: order_toolCallMap_def fold_order_output)
  have "map (tc_id \<circ> snd) (indexed_calls 0 outs) = map tc_id (concat (map output_calls outs))"
    unfolding snd_indexed_calls [of 0 outs, symmetric] by simp
  with fold_order_keys [OF f] show ?thesis
    by (simp add: fold_set_add)
qed

lemma order_map_index:
  assumes "order_toolCallMap outs = (m, k)"
  shows "map (ce_index \<circ> snd) m = [0..<length m]"
proof -
  from assms have f: "fold (\<lambda>(i, tc). order_toolCall i tc) (indexed_calls 0 outs) ([], 0) = (m, k)"
    by (simp add: order_toolCallMap_def fold_order_output)
  from fold_order_index [OF f] have eq: "map (ce_index \<circ> snd) m = [0..<k]" by simp
  have "length m = k" using arg_cong [OF eq, of length] by simp
  with eq show ?thesis by simp
qed

lemma order_map_entry:
  assumes om: "order_toolCallMap outs = (m, k)" and i: "i < length m"
  shows "\<exists>j c. find (\<lambda>p. tc_id (snd p) = fst (m ! i)) (indexed_calls 0 outs) = Some (j, c)
             \<and> snd (m ! i) = \<lparr>ce_id = fst (m ! i), ce_name = tc_name c, ce_index = i,
                               ce_args = tc_args c, ce_outputIndex = j\<rparr>"
proof -
  let ?x = "fst (m ! i)"
  from om have f: "fold (\<lambda>(i, tc). order_toolCall i tc) (indexed_calls 0 outs) ([], 0) = (m, k)"
    by (simp add: order_toolCallMap_def fold_order_output)
  have keys: "map fst m = first_seen (map tc_id (concat (map output_calls outs)))"
    by (rule order_map_keys [OF om])
  then have d: "distinct (map fst m)" by simp
  from i have "?x \<in> set (map fst m)" by simp
  with keys have "?x \<in> tc_id ` set (concat (map output_calls outs))" by simp
  then have "?x \<in> tc_id ` set (map snd (indexed_calls 0 outs))"
    by (simp only: snd_indexed_calls)
  then obtain p where "p \<in> set (indexed_calls 0 outs)" "tc_id (snd p) = ?x"
    by (auto simp: image_iff)
  then have "find (\<lambda>p. tc_id (snd p) = ?x) (indexed_calls 0 outs) \<noteq> None"
    unfolding find_None_iff by blast
  then obtain j c where fd: "find (\<lambda>p. tc_id (snd p) = ?x) (indexed_calls 0 outs) = Some (j, c)"
    by auto
  from fold_order_entry [OF f _ fd] obtain j' where
    "map_of m ?x = Some \<lparr>ce_id = ?x, ce_name = tc_name c, ce_index = j',
                            ce_args = tc_args c, ce_outputIndex = j\<rparr>"
    by auto
  with map_of_nth [OF d i] have e: "snd (m ! i) = \<lparr>ce_id = ?x, ce_name = tc_name c, ce_index = j',
                            ce_args = tc_args c, ce_outputIndex = j\<rparr>" by simp
  have "ce_index (snd (m ! i)) = i"
    using arg_cong [OF order_map_index [OF om], of "\<lambda>xs. xs ! i"] i by simp
  with e have "j' = i" by simp
  with e fd show ?thesis by simp
qed

lemma order_map_sorted:
  assumes "order_toolCallMap outs = (m, k)"
  shows "sort_key ce_index (map snd m) = map snd m"
proof -
  have "map ce_index (map snd m) = [0..<length m]"
    using order_map_index [OF assms] by simp
  then have "sorted (map ce_index (map snd m))" by simp
  then show ?thesis by (rule sort_key_id_if_sorted)
qed

lemma order_map_ce_id:
  assumes "order_toolCallMap outs = (m, k)" and "i < length m"
  shows "ce_id (snd (m ! i)) = fst (m ! i)" and "ce_index (snd (m ! i)) = i"
  using order_map_entry [OF assms] by auto

lemma extractToolCallOrder_nodes:
  assumes o: "outputs t = Some os" "messages os = Some outs"
    and om: "order_toolCallMap outs = (m, k)"
  shows "nodes (extractToolCallOrder t) =
         map (\<lambda>i. \<lparr>n_id = fst (m ! i), n_name = ce_name (snd (m ! i)), n_index = i,
                    n_callIndex = i\<rparr>) [0..<length m]"
proof (rule nth_equalityI)
  show "length (nodes (extractToolCallOrder t)) = length (map (\<lambda>i. \<lparr>n_id = fst (m ! i), n_name = ce_name (snd (m ! i)), n_index = i,
                    n_callIndex = i\<rparr>) [0..<length m])"
    using o om by (simp add: extractToolCallOrder_def Let_def order_map_sorted [OF om])
next
  fix i assume "i < length (nodes (extractToolCallOrder t))"
  then have i: "i < length m"
    using o om by (simp add: extractToolCallOrder_def Let_def order_map_sorted [OF om])
  then show "nodes (extractToolCallOrder t) ! i = map (\<lambda>i. \<lparr>n_id = fst (m ! i), n_name = ce_name (snd (m ! i)), n_index = i,
                    n_callIndex = i\<rparr>) [0..<length m] ! i"
    using o om order_map_ce_id [OF om i]
    by (simp add: extractToolCallOrder_def Let_def order_map_sorted [OF om] nth_enumerate_eq)
qed

lemma extractToolCallOrder_links:
  assumes o: "outputs t = Some os" "messages os = Some outs"
    and om: "order_toolCallMap outs = (m, k)"
  shows "links (extractToolCallOrder t) =
         map (\<lambda>i. \<lparr>l_source = fst (m ! i), l_target = fst (m ! Suc i), l_weight = 1\<rparr>)
             [0..<length m - 1]"
proof -
  have "\<And>i. i \<in> set [0..<length m - 1] \<Longrightarrow>
     \<lparr>l_source = ce_id (map snd m ! i), l_target = ce_id (map snd m ! (i + 1)), l_weight = 1\<rparr>
   = \<lparr>l_source = fst (m ! i), l_target = fst (m ! Suc i), l_weight = 1\<rparr>"
  proof -
    fix i assume "i \<in> set [0..<length m - 1]"
    then have "i < length m" "Suc i < length m" by auto
    then show "\<lparr>l_source = ce_id (map snd m ! i), l_target = ce_id (map snd m ! (i + 1)), l_weight = 1\<rparr>
       = \<lparr>l_source = fst (m ! i), l_target = fst (m ! Suc i), l_weight = 1\<rparr>"
      using order_map_ce_id(1) [OF om] by simp
  qed
  then show ?thesis
    using o om by (simp add: extractToolCallOrder_def Let_def order_map_sorted [OF om] cong: map_cong)
qed

lemma sample_dup_order:
  "extractToolCallOrder sample_dup =
     \<lparr>nodes = [\<lparr>n_id = ''c1'', n_name = ''A'', n_index = 0, n_callIndex = 0\<rparr>,
               \<lparr>n_id = ''c2'', n_name = ''B'', n_index = 1, n_callIndex = 1\<rparr>,
               \<lparr>n_id = ''c3'', n_name = ''A'', n_index = 2, n_callIndex = 2\<rparr>],
      links = [\<lparr>l_source = ''c1'', l_target = ''c2'', l_weight = 1\<rparr>,
               \<lparr>l_source = ''c2'', l_target = ''c3'', l_weight = 1\<rparr>]\<rparr>"
  by (simp add: extractToolCallOrder_def sample_dup_def order_toolCallMap_def Let_def upt_rec)

lemma sample_dup_calls:
  "tracing_calls sample_dup =
     [\<lparr>tc_id = ''c1'', tc_name = ''A'', tc_type = None, tc_args = Some ''x=1''\<rparr>,
      \<lparr>tc_id = ''c2'', tc_name = ''B'', tc_type = None, tc_args = None\<rparr>,
      \<lparr>tc_id = ''c1'', tc_name = ''Z'', tc_type = None, tc_args = Some ''x=2''\<rparr>,
      \<lparr>tc_id = ''c3'', tc_name = ''A'', tc_type = None, tc_args = None\<rparr>]"
  by (simp add: tracing_calls_def tracing_messages_def output_calls_def sample_dup_def)

text \<open>
  Claim C2. For every trace, \<open>extractToolCallOrder\<close> returns exactly one node per distinct
  tool-call id of the trace's outputs, in first-seen order; node \<open>i\<close> has index and call index
  \<open>i\<close> and the name of the first request that carries its id (a later request with the same
  id changes nothing); the links are the single path node 0 to node 1 to ... of length
  node count minus one, every link with weight 1.
\<close>

theorem extractToolCallOrder_path:
  "let g = extractToolCallOrder t; calls = tracing_calls t; n = length (nodes g) in
     map n_id (nodes g) = rev (remdups (rev (map tc_id calls)))
   \<and> n = card (tc_id ` set calls)
   \<and> (\<forall>i<n. n_index (nodes g ! i) = i \<and> n_callIndex (nodes g ! i) = i
           \<and> map_option tc_name (find (\<lambda>c. tc_id c = n_id (nodes g ! i)) calls)
               = Some (n_name (nodes g ! i)))
   \<and> links g = map (\<lambda>i. \<lparr>l_source = n_id (nodes g ! i), l_target = n_id (nodes g ! Suc i),
                          l_weight = 1\<rparr>) [0..<n - 1]
   \<and> length (links g) = n - 1"
proof (cases "\<exists>os outs. outputs t = Some os \<and> messages os = Some outs")
  case False
  then have "extractToolCallOrder t = \<lparr>nodes = [], links = []\<rparr>" "tracing_calls t = []"
    by (auto simp: extractToolCallOrder_def tracing_calls_def tracing_messages_def
        split: option.splits)
  then show ?thesis by simp
next
  case True
  then obtain os outs where o: "outputs t = Some os" "messages os = Some outs" by blast
  obtain m k where om: "order_toolCallMap outs = (m, k)" by (cases "order_toolCallMap outs")
  let ?g = "extractToolCallOrder t"
  let ?calls = "tracing_calls t"
  have calls: "?calls = concat (map output_calls outs)"
    using o by (simp add: tracing_calls_def tracing_messages_def)
  have nd: "nodes ?g = map (\<lambda>i. \<lparr>n_id = fst (m ! i), n_name = ce_name (snd (m ! i)), n_index = i,
                    n_callIndex = i\<rparr>) [0..<length m]"
    by (rule extractToolCallOrder_nodes [OF o om])
  have len: "length (nodes ?g) = length m" by (simp add: nd)
  have ids: "map n_id (nodes ?g) = map fst m"
    by (rule nth_equalityI) (simp_all add: nd)
  have keys: "map fst m = first_seen (map tc_id ?calls)"
    using order_map_keys [OF om] calls by simp
  have c1: "map n_id (nodes ?g) = rev (remdups (rev (map tc_id ?calls)))"
    using ids keys by (simp add: first_seen_def)
  have "length (map fst m) = card (set (map tc_id ?calls))"
    unfolding keys first_seen_def by (simp add: length_remdups_card_conv)
  then have c2: "length (nodes ?g) = card (tc_id ` set ?calls)"
    by (simp add: len)
  have c3: "\<forall>i<length (nodes ?g). n_index (nodes ?g ! i) = i \<and> n_callIndex (nodes ?g ! i) = i
           \<and> map_option tc_name (find (\<lambda>c. tc_id c = n_id (nodes ?g ! i)) ?calls)
               = Some (n_name (nodes ?g ! i))"
  proof (intro allI impI)
    fix i assume "i < length (nodes ?g)"
    then have i: "i < length m" by (simp add: len)
    from order_map_entry [OF om i] obtain j c where
      fd: "find (\<lambda>p. tc_id (snd p) = fst (m ! i)) (indexed_calls 0 outs) = Some (j, c)"
      and e: "snd (m ! i) = \<lparr>ce_id = fst (m ! i), ce_name = tc_name c, ce_index = i,
                               ce_args = tc_args c, ce_outputIndex = j\<rparr>"
      by blast
    have "find (\<lambda>c. tc_id c = fst (m ! i)) (map snd (indexed_calls 0 outs)) = Some c"
      unfolding find_map_snd using fd by simp
    then have "find (\<lambda>c. tc_id c = fst (m ! i)) ?calls = Some c"
      by (simp add: snd_indexed_calls calls)
    with i e show "n_index (nodes ?g ! i) = i \<and> n_callIndex (nodes ?g ! i) = i
           \<and> map_option tc_name (find (\<lambda>c. tc_id c = n_id (nodes ?g ! i)) ?calls)
               = Some (n_name (nodes ?g ! i))"
      by (simp add: nd)
  qed
  have c4: "links ?g = map (\<lambda>i. \<lparr>l_source = n_id (nodes ?g ! i), l_target = n_id (nodes ?g ! Suc i),
                          l_weight = 1\<rparr>) [0..<length (nodes ?g) - 1]"
    unfolding extractToolCallOrder_links [OF o om] len
    by (rule map_cong) (auto simp: nd)
  have c5: "length (links ?g) = length (nodes ?g) - 1"
    by (simp add: extractToolCallOrder_links [OF o om] len)
  from c1 c2 c3 c4 c5 show ?thesis by (simp add: Let_def)
qed

theorem extractToolCallOrder_path_witness:
  "(2::nat) < length (nodes (extractToolCallOrder sample_dup))
   \<and> map n_id (nodes (extractToolCallOrder sample_dup)) = [''c1'', ''c2'', ''c3'']
   \<and> n_index (nodes (extractToolCallOrder sample_dup) ! 2) = 2
   \<and> map_option tc_name (find (\<lambda>c. tc_id c = ''c1'') (tracing_calls sample_dup)) = Some ''A''
   \<and> n_name (nodes (extractToolCallOrder sample_dup) ! 0) = ''A''
   \<and> links (extractToolCallOrder sample_dup) =
         [\<lparr>l_source = ''c1'', l_target = ''c2'', l_weight = 1\<rparr>,
          \<lparr>l_source = ''c2'', l_target = ''c3'', l_weight = 1\<rparr>]"
  using extractToolCallOrder_path [of sample_dup]
  by (simp add: sample_dup_order sample_dup_calls Let_def)

section \<open>The flow graph\<close>

lemma fold_flow_output:
  "fold flow_output (enumerate n outs) st =
   fold (\<lambda>(i, tc). flow_toolCall i tc) (indexed_calls n outs) st"
proof (induction outs arbitrary: n st)
  case Nil
  show ?case by (simp add: indexed_calls_def)
next
  case (Cons out outs)
  have "flow_output (n, out) st = fold (flow_toolCall n) (output_calls out) st"
    by (simp add: output_calls_def split: field.splits)
  then show ?case
    by (simp add: indexed_calls_Cons fold_Pair Cons.IH)
qed

lemma fold_order_prefix:
  "fold (\<lambda>(i, tc). order_toolCall i tc) ps (m, k) = (m', k') \<Longrightarrow> \<exists>rest. m' = m @ rest"
proof (induction ps arbitrary: m k)
  case Nil
  then show ?case by simp
next
  case (Cons p ps)
  obtain i tc where p: "p = (i, tc)" by (cases p)
  show ?case
  proof (cases "map_of m (tc_id tc)")
    case None
    let ?e = "\<lparr>ce_id = tc_id tc, ce_name = tc_name tc, ce_index = k,
             ce_args = tc_args tc, ce_outputIndex = i\<rparr>"
    from None have step: "fold (\<lambda>(i, tc). order_toolCall i tc) ps (m @ [(tc_id tc, ?e)], Suc k) = (m', k')"
      using Cons.prems(1) p by (simp add: order_toolCall_new del: order_toolCall.simps)
    from Cons.IH [OF step] show ?thesis by auto
  next
    case (Some e')
    then have step: "fold (\<lambda>(i, tc). order_toolCall i tc) ps (m, k) = (m', k')"
      using Cons.prems(1) p by (simp add: order_toolCall_old del: order_toolCall.simps)
    from Cons.IH [OF step] show ?thesis .
  qed
qed

lemma flow_toolCall_new:
  "map_of m (tc_id tc) = None \<Longrightarrow>
   flow_toolCall i tc (m, k, cs) =
     (m @ [(tc_id tc, \<lparr>ce_id = tc_id tc, ce_name = tc_name tc, ce_index = k,
                        ce_args = tc_args tc, ce_outputIndex = i\<rparr>)], Suc k, cs @ [tc_name tc])"
  by (simp add: update_fresh Let_def)

lemma flow_toolCall_old:
  "map_of m (tc_id tc) = Some e \<Longrightarrow> flow_toolCall i tc (m, k, cs) = (m, k, cs)"
  by simp

lemma fold_flow_order:
  "fold (\<lambda>(i, tc). order_toolCall i tc) ps (m, k) = (m', k') \<Longrightarrow>
   fold (\<lambda>(i, tc). flow_toolCall i tc) ps (m, k, cs) =
     (m', k', cs @ map (ce_name \<circ> snd) (drop (length m) m'))"
proof (induction ps arbitrary: m k cs)
  case Nil
  then show ?case by simp
next
  case (Cons p ps)
  obtain i tc where p: "p = (i, tc)" by (cases p)
  show ?case
  proof (cases "map_of m (tc_id tc)")
    case None
    let ?e = "\<lparr>ce_id = tc_id tc, ce_name = tc_name tc, ce_index = k,
             ce_args = tc_args tc, ce_outputIndex = i\<rparr>"
    from None have step: "fold (\<lambda>(i, tc). order_toolCall i tc) ps (m @ [(tc_id tc, ?e)], Suc k) = (m', k')"
      using Cons.prems(1) p by (simp add: order_toolCall_new del: order_toolCall.simps)
    from fold_order_prefix [OF step] obtain rest where m': "m' = m @ (tc_id tc, ?e) # rest"
      by auto
    from Cons.IH [OF step, of "cs @ [tc_name tc]"] None p m' show ?thesis
      by (simp add: flow_toolCall_new del: flow_toolCall.simps)
  next
    case (Some e')
    then have step: "fold (\<lambda>(i, tc). order_toolCall i tc) ps (m, k) = (m', k')"
      using Cons.prems(1) p by (simp add: order_toolCall_old del: order_toolCall.simps)
    from Cons.IH [OF step, of cs] Some p show ?thesis
      by (simp add: flow_toolCall_old del: flow_toolCall.simps)
  qed
qed

lemma flow_callSequence_order:
  assumes "order_toolCallMap outs = (m, k)"
  shows "flow_callSequence outs = map (ce_name \<circ> snd) m"
proof -
  from assms have f: "fold (\<lambda>(i, tc). order_toolCall i tc) (indexed_calls 0 outs) ([], 0) = (m, k)"
    by (simp add: order_toolCallMap_def fold_order_output)
  from fold_flow_order [OF f, of "[]"] show ?thesis
    by (simp add: flow_callSequence_def fold_flow_output)
qed

lemma flow_callSequence_nodes:
  assumes o: "outputs t = Some os" "messages os = Some outs"
  shows "flow_callSequence outs = map n_name (nodes (extractToolCallOrder t))"
proof -
  obtain m k where om: "order_toolCallMap outs = (m, k)" by (cases "order_toolCallMap outs")
  show ?thesis
    unfolding flow_callSequence_order [OF om] extractToolCallOrder_nodes [OF o om]
    by (rule nth_equalityI) simp_all
qed

lemma flow_edge_new:
  "map_of em (edgeKey (cs ! i) (cs ! Suc i)) = None \<Longrightarrow>
   flow_edge cs i em =
     em @ [(edgeKey (cs ! i) (cs ! Suc i),
            \<lparr>e_source = cs ! i, e_target = cs ! Suc i, e_weight = 1, e_sequence = (i, Suc i)\<rparr>)]"
  by (simp add: flow_edge_def Let_def update_fresh)

lemma flow_edge_old:
  "map_of em (edgeKey (cs ! i) (cs ! Suc i)) = Some e \<Longrightarrow>
   flow_edge cs i em = AList.update (edgeKey (cs ! i) (cs ! Suc i)) (e\<lparr>e_weight := Suc (e_weight e)\<rparr>) em"
  by (simp add: flow_edge_def Let_def)

lemma flow_edge_keys:
  "map fst (flow_edge cs i em) = set_add (edgeKey (cs ! i) (cs ! Suc i)) (map fst em)"
proof (cases "map_of em (edgeKey (cs ! i) (cs ! Suc i))")
  case None
  then have "edgeKey (cs ! i) (cs ! Suc i) \<notin> set (map fst em)"
    by (simp add: map_of_eq_None_iff)
  with None show ?thesis by (simp add: flow_edge_new set_add_def)
next
  case (Some e)
  then have "edgeKey (cs ! i) (cs ! Suc i) \<in> set (map fst em)"
    using map_of_eq_None_iff [of em "edgeKey (cs ! i) (cs ! Suc i)"] by simp
  with Some show ?thesis by (simp add: flow_edge_old set_add_def update_keys)
qed

lemma fold_flow_edge_keys:
  "map fst (fold (flow_edge cs) js em) =
   fold set_add (map (\<lambda>i. edgeKey (cs ! i) (cs ! Suc i)) js) (map fst em)"
  by (induction js arbitrary: em) (simp_all add: flow_edge_keys)

lemma flow_edge_lookup:
  "map_of (flow_edge cs i em) k =
     (if k = edgeKey (cs ! i) (cs ! Suc i)
      then (case map_of em k of
              None \<Rightarrow> Some \<lparr>e_source = cs ! i, e_target = cs ! Suc i, e_weight = 1,
                             e_sequence = (i, Suc i)\<rparr>
            | Some e \<Rightarrow> Some (e\<lparr>e_weight := Suc (e_weight e)\<rparr>))
      else map_of em k)"
  by (simp add: flow_edge_def Let_def update_conv' split: option.splits)

lemma fold_flow_edge_weight:
  "case_option 0 e_weight (map_of (fold (flow_edge cs) js em) k) =
   case_option 0 e_weight (map_of em k)
     + count_list (map (\<lambda>i. edgeKey (cs ! i) (cs ! Suc i)) js) k"
proof (induction js arbitrary: em)
  case Nil
  show ?case by simp
next
  case (Cons j js)
  show ?case
    by (simp add: Cons.IH flow_edge_lookup split: option.splits)
qed

lemma fold_flow_edge_keep:
  "map_of em k = Some e \<Longrightarrow>
   \<exists>e'. map_of (fold (flow_edge cs) js em) k = Some e' \<and> e_source e' = e_source e
        \<and> e_target e' = e_target e \<and> e_sequence e' = e_sequence e"
proof (induction js arbitrary: em e)
  case Nil
  then show ?case by simp
next
  case (Cons j js)
  from Cons.prems have "\<exists>e1. map_of (flow_edge cs j em) k = Some e1 \<and> e_source e1 = e_source e
        \<and> e_target e1 = e_target e \<and> e_sequence e1 = e_sequence e"
    by (cases "k = edgeKey (cs ! j) (cs ! Suc j)") (simp_all add: flow_edge_lookup)
  then obtain e1 where
    e1: "map_of (flow_edge cs j em) k = Some e1" "e_source e1 = e_source e"
        "e_target e1 = e_target e" "e_sequence e1 = e_sequence e"
    by blast
  from Cons.IH [OF e1(1)] e1 show ?case by simp
qed

lemma fold_flow_edge_first:
  "map_of em k = None \<Longrightarrow>
   find (\<lambda>i. edgeKey (cs ! i) (cs ! Suc i) = k) js = Some i \<Longrightarrow>
   \<exists>e'. map_of (fold (flow_edge cs) js em) k = Some e' \<and> e_source e' = cs ! i
        \<and> e_target e' = cs ! Suc i \<and> e_sequence e' = (i, Suc i)"
proof (induction js arbitrary: em)
  case Nil
  then show ?case by simp
next
  case (Cons j js)
  show ?case
  proof (cases "edgeKey (cs ! j) (cs ! Suc j) = k")
    case True
    with Cons.prems have ji: "j = i" by simp
    let ?e = "\<lparr>e_source = cs ! i, e_target = cs ! Suc i, e_weight = 1, e_sequence = (i, Suc i)\<rparr>"
    from True Cons.prems ji have "map_of (flow_edge cs j em) k = Some ?e"
      by (simp add: flow_edge_lookup)
    from fold_flow_edge_keep [OF this, of cs js] show ?thesis by simp
  next
    case False
    with Cons.prems have "map_of (flow_edge cs j em) k = None"
      and "find (\<lambda>i. edgeKey (cs ! i) (cs ! Suc i) = k) js = Some i"
      by (simp_all add: flow_edge_lookup)
    from Cons.IH [OF this] show ?thesis by simp
  qed
qed

lemma sum_update_weight:
  "map_of em k = Some e \<Longrightarrow> e_weight e' = Suc (e_weight e) \<Longrightarrow>
   sum_list (map (e_weight \<circ> snd) (AList.update k e' em)) =
   Suc (sum_list (map (e_weight \<circ> snd) em))"
  by (induction em) (auto split: if_splits)

lemma flow_edge_sum:
  "sum_list (map (e_weight \<circ> snd) (flow_edge cs i em)) = Suc (sum_list (map (e_weight \<circ> snd) em))"
proof (cases "map_of em (edgeKey (cs ! i) (cs ! Suc i))")
  case None
  then show ?thesis by (simp add: flow_edge_new)
next
  case (Some e)
  then show ?thesis by (simp add: flow_edge_old sum_update_weight)
qed

lemma fold_flow_edge_sum:
  "sum_list (map (e_weight \<circ> snd) (fold (flow_edge cs) js em)) =
   sum_list (map (e_weight \<circ> snd) em) + length js"
  by (induction js arbitrary: em) (simp_all add: flow_edge_sum)

lemma remdups_map_inj:
  "inj_on f (set xs) \<Longrightarrow> remdups (map f xs) = map f (remdups xs)"
proof (induction xs)
  case Nil
  show ?case by simp
next
  case (Cons x xs)
  then have "inj_on f (set xs)" and "f x \<in> f ` set xs \<longleftrightarrow> x \<in> set xs"
    by (auto simp: inj_on_def)
  with Cons.IH show ?case by simp
qed

lemma first_seen_map_inj:
  "inj_on f (set xs) \<Longrightarrow> first_seen (map f xs) = map f (first_seen xs)"
  by (simp add: first_seen_def rev_map remdups_map_inj)

lemma flow_keys_pairs:
  "map (\<lambda>i. edgeKey (cs ! i) (cs ! Suc i)) [0..<length cs - 1] =
   map (\<lambda>(a, b). edgeKey a b) (zip cs (tl cs))"
  by (rule nth_equalityI) (simp_all add: nth_tl)

lemma flow_pairs_nth:
  "i < length cs - 1 \<Longrightarrow> zip cs (tl cs) ! i = (cs ! i, cs ! Suc i)"
  by (simp add: nth_tl)

lemma flow_edgeMap_keys:
  "map fst (flow_edgeMap cs) = first_seen (map (\<lambda>(a, b). edgeKey a b) (zip cs (tl cs)))"
proof -
  show ?thesis
    using fold_flow_edge_keys [of cs "[0..<length cs - 1]" "[]"]
    unfolding flow_edgeMap_def flow_keys_pairs fold_set_add by simp
qed

lemma flow_edgeMap_entry:
  assumes j: "j < length (flow_edgeMap cs)"
  shows "\<exists>i<length cs - 1.
           fst (flow_edgeMap cs ! j) = edgeKey (cs ! i) (cs ! Suc i)
         \<and> e_source (snd (flow_edgeMap cs ! j)) = cs ! i
         \<and> e_target (snd (flow_edgeMap cs ! j)) = cs ! Suc i
         \<and> e_sequence (snd (flow_edgeMap cs ! j)) = (i, Suc i)
         \<and> e_weight (snd (flow_edgeMap cs ! j)) =
             count_list (map (\<lambda>(a, b). edgeKey a b) (zip cs (tl cs))) (fst (flow_edgeMap cs ! j))"
proof -
  let ?em = "flow_edgeMap cs"
  let ?js = "[0..<length cs - 1]"
  let ?K = "map (\<lambda>i. edgeKey (cs ! i) (cs ! Suc i)) ?js"
  let ?k = "fst (?em ! j)"
  have keys: "map fst ?em = first_seen ?K"
    unfolding flow_keys_pairs by (rule flow_edgeMap_keys)
  then have d: "distinct (map fst ?em)" by simp
  from j have "?k \<in> set (map fst ?em)" by simp
  with keys have "?k \<in> set ?K" by simp
  then obtain i0 where "i0 \<in> set ?js" "edgeKey (cs ! i0) (cs ! Suc i0) = ?k" by auto
  then have "find (\<lambda>i. edgeKey (cs ! i) (cs ! Suc i) = ?k) ?js \<noteq> None"
    unfolding find_None_iff by blast
  then obtain i where fd: "find (\<lambda>i. edgeKey (cs ! i) (cs ! Suc i) = ?k) ?js = Some i"
    by auto
  then have i: "i < length cs - 1" "edgeKey (cs ! i) (cs ! Suc i) = ?k"
    by (auto simp: find_Some_iff)
  from fold_flow_edge_first [of "[]" ?k cs ?js i, OF _ fd]
  obtain e' where e': "map_of ?em ?k = Some e'" "e_source e' = cs ! i"
        "e_target e' = cs ! Suc i" "e_sequence e' = (i, Suc i)"
    by (auto simp: flow_edgeMap_def)
  from map_of_nth [OF d j] e'(1) have se: "snd (?em ! j) = e'" by simp
  have "case_option 0 e_weight (map_of ?em ?k) = count_list ?K ?k"
    using fold_flow_edge_weight [of cs ?js "[]" ?k] by (simp add: flow_edgeMap_def)
  with e'(1) have "e_weight e' = count_list ?K ?k" by simp
  with i e' se show ?thesis
    unfolding flow_keys_pairs [symmetric] by auto
qed

lemma flow_edgeMap_sum:
  "sum_list (map e_weight (map snd (flow_edgeMap cs))) = length cs - 1"
  using fold_flow_edge_sum [of cs "[0..<length cs - 1]" "[]"]
  by (simp add: flow_edgeMap_def)

lemma count_filter_eq: "length (filter (\<lambda>n. n = x) cs) = count_list cs x"
  by (induction cs) simp_all

lemma extractToolCallFlow_Some:
  assumes "outputs t = Some os" "messages os = Some outs"
  shows "extractToolCallFlow t =
     \<lparr>f_nodes = map (\<lambda>(idx, name). \<lparr>fn_id = name, fn_name = name, fn_index = idx,
                              fn_count = count_list (flow_callSequence outs) name\<rparr>)
                     (enumerate 0 (first_seen (flow_callSequence outs))),
      f_links = map snd (flow_edgeMap (flow_callSequence outs)),
      f_callSequence = Some (flow_callSequence outs)\<rparr>"
  using assms by (simp add: extractToolCallFlow_def Let_def fold_set_add count_filter_eq)

lemma flow_nodes_names:
  "map fn_name (map (\<lambda>(idx, name). \<lparr>fn_id = name, fn_name = name, fn_index = idx,
                              fn_count = c name\<rparr>) (enumerate 0 xs)) = xs"
  by (rule nth_equalityI) (simp_all add: nth_enumerate_eq)

lemma flow_links_pairs:
  assumes inj: "inj_on (\<lambda>(a, b). edgeKey a b) (set (zip cs (tl cs)))"
  shows "map (\<lambda>e. (e_source e, e_target e)) (map snd (flow_edgeMap cs)) = first_seen (zip cs (tl cs))"
    and "\<forall>e\<in>set (map snd (flow_edgeMap cs)).
           e_weight e = count_list (zip cs (tl cs)) (e_source e, e_target e)"
proof -
  let ?em = "flow_edgeMap cs"
  let ?pairs = "zip cs (tl cs)"
  let ?kf = "\<lambda>(a, b). edgeKey a b"
  have keys: "map fst ?em = map ?kf (first_seen ?pairs)"
    unfolding flow_edgeMap_keys by (rule first_seen_map_inj [OF inj])
  have len: "length ?em = length (first_seen ?pairs)"
    using arg_cong [OF keys, of length] by simp
  have ent: "\<And>j. j < length ?em \<Longrightarrow>
      (e_source (snd (?em ! j)), e_target (snd (?em ! j))) \<in> set ?pairs
    \<and> ?kf (e_source (snd (?em ! j)), e_target (snd (?em ! j))) = fst (?em ! j)
    \<and> e_weight (snd (?em ! j)) = count_list ?pairs (e_source (snd (?em ! j)), e_target (snd (?em ! j)))"
  proof -
    fix j assume j: "j < length ?em"
    from flow_edgeMap_entry [OF j] obtain i where
      i: "i < length cs - 1" "fst (?em ! j) = edgeKey (cs ! i) (cs ! Suc i)"
         "e_source (snd (?em ! j)) = cs ! i" "e_target (snd (?em ! j)) = cs ! Suc i"
         "e_weight (snd (?em ! j)) = count_list (map ?kf ?pairs) (fst (?em ! j))"
      by blast
    have p: "?pairs ! i = (cs ! i, cs ! Suc i)"
      using i(1) by (simp add: nth_tl)
    have "i < length ?pairs" using i(1) by simp
    then have mem: "(cs ! i, cs ! Suc i) \<in> set ?pairs"
      using p nth_mem [of i ?pairs] by simp
    have "count_list (map ?kf ?pairs) (?kf (cs ! i, cs ! Suc i)) = count_list ?pairs (cs ! i, cs ! Suc i)"
      by (rule count_list_inj_map [OF inj mem])
    with i mem show "(e_source (snd (?em ! j)), e_target (snd (?em ! j))) \<in> set ?pairs
    \<and> ?kf (e_source (snd (?em ! j)), e_target (snd (?em ! j))) = fst (?em ! j)
    \<and> e_weight (snd (?em ! j)) = count_list ?pairs (e_source (snd (?em ! j)), e_target (snd (?em ! j)))"
      by simp
  qed
  show "map (\<lambda>e. (e_source e, e_target e)) (map snd ?em) = first_seen ?pairs"
  proof (rule nth_equalityI)
    show "length (map (\<lambda>e. (e_source e, e_target e)) (map snd ?em)) = length (first_seen ?pairs)"
      by (simp add: len)
  next
    fix j assume "j < length (map (\<lambda>e. (e_source e, e_target e)) (map snd ?em))"
    then have j: "j < length ?em" by simp
    let ?p = "(e_source (snd (?em ! j)), e_target (snd (?em ! j)))"
    let ?q = "first_seen ?pairs ! j"
    from j have jq: "j < length (first_seen ?pairs)" by (simp add: len)
    then have "?q \<in> set (first_seen ?pairs)" by (rule nth_mem)
    then have qmem: "?q \<in> set ?pairs" by simp
    have "fst (?em ! j) = ?kf ?q"
      using arg_cong [OF keys, of "\<lambda>xs. xs ! j"] j jq by simp
    with ent [OF j] have eq: "?kf ?p = ?kf ?q" and pmem: "?p \<in> set ?pairs" by simp_all
    have "?p = ?q" by (rule inj_onD [OF inj eq pmem qmem])
    with j show "map (\<lambda>e. (e_source e, e_target e)) (map snd ?em) ! j = first_seen ?pairs ! j"
      by simp
  qed
  show "\<forall>e\<in>set (map snd ?em). e_weight e = count_list ?pairs (e_source e, e_target e)"
  proof
    fix e assume "e \<in> set (map snd ?em)"
    then obtain j where "j < length ?em" "e = snd (?em ! j)"
      by (auto simp: in_set_conv_nth)
    with ent [of j] show "e_weight e = count_list ?pairs (e_source e, e_target e)" by simp
  qed
qed

lemma flow_links_keys:
  shows "map (\<lambda>e. edgeKey (e_source e) (e_target e)) (map snd (flow_edgeMap cs)) =
         first_seen (map (\<lambda>(a, b). edgeKey a b) (zip cs (tl cs)))"
    and "\<forall>e\<in>set (map snd (flow_edgeMap cs)).
           (e_source e, e_target e) \<in> set (zip cs (tl cs))
         \<and> e_weight e = count_list (map (\<lambda>(a, b). edgeKey a b) (zip cs (tl cs)))
                                    (edgeKey (e_source e) (e_target e))"
proof -
  let ?em = "flow_edgeMap cs"
  let ?pairs = "zip cs (tl cs)"
  let ?kf = "\<lambda>(a, b). edgeKey a b"
  have ent: "\<And>j. j < length ?em \<Longrightarrow>
      (e_source (snd (?em ! j)), e_target (snd (?em ! j))) \<in> set ?pairs
    \<and> edgeKey (e_source (snd (?em ! j))) (e_target (snd (?em ! j))) = fst (?em ! j)
    \<and> e_weight (snd (?em ! j)) = count_list (map ?kf ?pairs) (fst (?em ! j))"
  proof -
    fix j assume j: "j < length ?em"
    from flow_edgeMap_entry [OF j] obtain i where
      i: "i < length cs - 1" "fst (?em ! j) = edgeKey (cs ! i) (cs ! Suc i)"
         "e_source (snd (?em ! j)) = cs ! i" "e_target (snd (?em ! j)) = cs ! Suc i"
         "e_weight (snd (?em ! j)) = count_list (map ?kf ?pairs) (fst (?em ! j))"
      by blast
    have p: "?pairs ! i = (cs ! i, cs ! Suc i)"
      using i(1) by (simp add: nth_tl)
    have "i < length ?pairs" using i(1) by simp
    then have mem: "(cs ! i, cs ! Suc i) \<in> set ?pairs"
      using p nth_mem [of i ?pairs] by simp
    with i show "(e_source (snd (?em ! j)), e_target (snd (?em ! j))) \<in> set ?pairs
    \<and> edgeKey (e_source (snd (?em ! j))) (e_target (snd (?em ! j))) = fst (?em ! j)
    \<and> e_weight (snd (?em ! j)) = count_list (map ?kf ?pairs) (fst (?em ! j))"
      by simp
  qed
  have "map (\<lambda>e. edgeKey (e_source e) (e_target e)) (map snd ?em) = map fst ?em"
    by (rule nth_equalityI) (simp_all add: ent)
  then show "map (\<lambda>e. edgeKey (e_source e) (e_target e)) (map snd ?em) = first_seen (map ?kf ?pairs)"
    by (simp only: flow_edgeMap_keys)
  show "\<forall>e\<in>set (map snd ?em). (e_source e, e_target e) \<in> set ?pairs
         \<and> e_weight e = count_list (map ?kf ?pairs) (edgeKey (e_source e) (e_target e))"
  proof
    fix e assume "e \<in> set (map snd ?em)"
    then obtain j where "j < length ?em" "e = snd (?em ! j)"
      by (auto simp: in_set_conv_nth)
    with ent [of j] show "(e_source e, e_target e) \<in> set ?pairs
         \<and> e_weight e = count_list (map ?kf ?pairs) (edgeKey (e_source e) (e_target e))" by simp
  qed
qed

lemma edgeKey_inj:
  assumes "CHR ''>'' \<notin> set a" "CHR ''>'' \<notin> set c" "edgeKey a b = edgeKey c d"
  shows "a = c \<and> b = d"
proof -
  have "takeWhile (\<lambda>x. x \<noteq> CHR ''>'') (edgeKey a b) = a @ ''-''"
    using assms(1) by (simp add: edgeKey_def takeWhile_append)
  moreover have "takeWhile (\<lambda>x. x \<noteq> CHR ''>'') (edgeKey c d) = c @ ''-''"
    using assms(2) by (simp add: edgeKey_def takeWhile_append)
  ultimately have "a = c" using assms(3) by simp
  with assms(3) show ?thesis by (simp add: edgeKey_def)
qed

lemma edgeKey_inj_on:
  assumes "\<forall>n\<in>set cs. CHR ''>'' \<notin> set n"
  shows "inj_on (\<lambda>(a, b). edgeKey a b) (set (zip cs (tl cs)))"
proof (rule inj_onI)
  fix p q
  assume p: "p \<in> set (zip cs (tl cs))" and q: "q \<in> set (zip cs (tl cs))"
    and eq: "(case p of (a, b) \<Rightarrow> edgeKey a b) = (case q of (a, b) \<Rightarrow> edgeKey a b)"
  obtain a b where pab: "p = (a, b)" by (cases p)
  obtain c d where qcd: "q = (c, d)" by (cases q)
  from p pab have "a \<in> set cs" by (auto dest: set_zip_leftD)
  moreover from q qcd have "c \<in> set cs" by (auto dest: set_zip_leftD)
  ultimately have "CHR ''>'' \<notin> set a" "CHR ''>'' \<notin> set c" using assms by auto
  from edgeKey_inj [OF this, of b d] eq pab qcd show "p = q" by simp
qed

lemma sample_flow_graph:
  "extractToolCallFlow sample_flow =
     \<lparr>f_nodes = [\<lparr>fn_id = ''A'', fn_name = ''A'', fn_index = 0, fn_count = 2\<rparr>,
                 \<lparr>fn_id = ''B'', fn_name = ''B'', fn_index = 1, fn_count = 2\<rparr>,
                 \<lparr>fn_id = ''C'', fn_name = ''C'', fn_index = 2, fn_count = 1\<rparr>],
      f_links = [\<lparr>e_source = ''A'', e_target = ''B'', e_weight = 2, e_sequence = (0, 1)\<rparr>,
                 \<lparr>e_source = ''B'', e_target = ''A'', e_weight = 1, e_sequence = (1, 2)\<rparr>,
                 \<lparr>e_source = ''B'', e_target = ''C'', e_weight = 1, e_sequence = (3, 4)\<rparr>],
      f_callSequence = Some [''A'', ''B'', ''A'', ''B'', ''C'']\<rparr>"
  by code_simp

lemma sample_flow_names:
  "map n_name (nodes (extractToolCallOrder sample_flow)) = [''A'', ''B'', ''A'', ''B'', ''C'']"
  by code_simp


text \<open>
  What \<open>extractToolCallFlow\<close> computes on every trace: one node per distinct tool name of
  the first-seen call sequence (the names of the order graph's nodes), in first-seen order,
  with \<open>count\<close> the number of occurrences of the name in that sequence, and link weights
  that sum to the sequence length minus one (zero for an empty sequence). The links follow
  the keys \<open>source->target\<close> of the edge map. On the traces whose distinct consecutive pairs
  have distinct keys (as they do when no tool name contains the character \<open>>\<close>), there
  is one link per distinct consecutive (source, target) pair, in first-seen order, with
  weight the number of times the transition occurs.
\<close>

lemma extractToolCallFlow_graph:
  "let g = extractToolCallFlow t;
       cs = map n_name (nodes (extractToolCallOrder t));
       pairs = zip cs (tl cs);
       keys = map (\<lambda>(a, b). edgeKey a b) pairs
   in (f_callSequence g = Some cs \<or> f_callSequence g = None \<and> cs = [])
    \<and> map fn_name (f_nodes g) = rev (remdups (rev cs))
    \<and> length (f_nodes g) = card (set cs)
    \<and> (\<forall>i<length (f_nodes g).
           fn_index (f_nodes g ! i) = i
         \<and> fn_id (f_nodes g ! i) = fn_name (f_nodes g ! i)
         \<and> fn_count (f_nodes g ! i) = count_list cs (fn_name (f_nodes g ! i)))
    \<and> sum_list (map e_weight (f_links g)) = length cs - 1
    \<and> map (\<lambda>e. edgeKey (e_source e) (e_target e)) (f_links g) = rev (remdups (rev keys))
    \<and> (\<forall>e\<in>set (f_links g).
           (e_source e, e_target e) \<in> set pairs
         \<and> e_weight e = count_list keys (edgeKey (e_source e) (e_target e)))
    \<and> (inj_on (\<lambda>(a, b). edgeKey a b) (set pairs) \<longrightarrow>
           map (\<lambda>e. (e_source e, e_target e)) (f_links g) = rev (remdups (rev pairs))
         \<and> (\<forall>e\<in>set (f_links g). e_weight e = count_list pairs (e_source e, e_target e)))"
proof (cases "\<exists>os outs. outputs t = Some os \<and> messages os = Some outs")
  case False
  then have "extractToolCallFlow t = \<lparr>f_nodes = [], f_links = [], f_callSequence = None\<rparr>"
    and "extractToolCallOrder t = \<lparr>nodes = [], links = []\<rparr>"
    by (auto simp: extractToolCallFlow_def extractToolCallOrder_def split: option.splits)
  then show ?thesis by simp
next
  case True
  then obtain os outs where o: "outputs t = Some os" "messages os = Some outs" by blast
  let ?g = "extractToolCallFlow t"
  let ?cs = "map n_name (nodes (extractToolCallOrder t))"
  let ?pairs = "zip ?cs (tl ?cs)"
  let ?keys = "map (\<lambda>(a, b). edgeKey a b) ?pairs"
  have cs: "flow_callSequence outs = ?cs"
    by (rule flow_callSequence_nodes [OF o])
  have g: "?g =
     \<lparr>f_nodes = map (\<lambda>(idx, name). \<lparr>fn_id = name, fn_name = name, fn_index = idx,
                              fn_count = count_list ?cs name\<rparr>)
                     (enumerate 0 (first_seen ?cs)),
      f_links = map snd (flow_edgeMap ?cs),
      f_callSequence = Some ?cs\<rparr>"
    using extractToolCallFlow_Some [OF o] unfolding cs .
  have c1: "f_callSequence ?g = Some ?cs" by (simp add: g)
  have names: "map fn_name (f_nodes ?g) = first_seen ?cs"
    unfolding g by (simp only: flowGraph.simps flow_nodes_names)
  have c2: "map fn_name (f_nodes ?g) = rev (remdups (rev ?cs))"
    using names by (simp only: first_seen_def)
  have len: "length (f_nodes ?g) = length (first_seen ?cs)"
    using arg_cong [OF names, of length] by simp
  have c3: "length (f_nodes ?g) = card (set ?cs)"
    unfolding len first_seen_def by (simp add: length_remdups_card_conv)
  have c4: "\<forall>i<length (f_nodes ?g).
           fn_index (f_nodes ?g ! i) = i
         \<and> fn_id (f_nodes ?g ! i) = fn_name (f_nodes ?g ! i)
         \<and> fn_count (f_nodes ?g ! i) = count_list ?cs (fn_name (f_nodes ?g ! i))"
  proof (intro allI impI)
    fix i assume "i < length (f_nodes ?g)"
    then have i: "i < length (first_seen ?cs)" by (simp only: len)
    then have "f_nodes ?g ! i =
       \<lparr>fn_id = first_seen ?cs ! i, fn_name = first_seen ?cs ! i, fn_index = i,
        fn_count = count_list ?cs (first_seen ?cs ! i)\<rparr>"
      unfolding g by (simp add: nth_enumerate_eq)
    then show "fn_index (f_nodes ?g ! i) = i
         \<and> fn_id (f_nodes ?g ! i) = fn_name (f_nodes ?g ! i)
         \<and> fn_count (f_nodes ?g ! i) = count_list ?cs (fn_name (f_nodes ?g ! i))"
      by simp
  qed
  have links: "f_links ?g = map snd (flow_edgeMap ?cs)" by (simp add: g)
  have c5: "sum_list (map e_weight (f_links ?g)) = length ?cs - 1"
    unfolding links by (rule flow_edgeMap_sum)
  have c6: "map (\<lambda>e. edgeKey (e_source e) (e_target e)) (f_links ?g) = rev (remdups (rev ?keys))"
    unfolding links flow_links_keys(1) first_seen_def ..
  have c7: "\<forall>e\<in>set (f_links ?g).
           (e_source e, e_target e) \<in> set ?pairs
         \<and> e_weight e = count_list ?keys (edgeKey (e_source e) (e_target e))"
    unfolding links by (rule flow_links_keys(2))
  have c8: "inj_on (\<lambda>(a, b). edgeKey a b) (set ?pairs) \<longrightarrow>
           map (\<lambda>e. (e_source e, e_target e)) (f_links ?g) = rev (remdups (rev ?pairs))
         \<and> (\<forall>e\<in>set (f_links ?g). e_weight e = count_list ?pairs (e_source e, e_target e))"
  proof
    assume inj: "inj_on (\<lambda>(a, b). edgeKey a b) (set ?pairs)"
    show "map (\<lambda>e. (e_source e, e_target e)) (f_links ?g) = rev (remdups (rev ?pairs))
         \<and> (\<forall>e\<in>set (f_links ?g). e_weight e = count_list ?pairs (e_source e, e_target e))"
      unfolding links
      using flow_links_pairs [OF inj] unfolding first_seen_def by blast
  qed
  from c1 c2 c3 c4 c5 c6 c7 c8 show ?thesis
    unfolding Let_def by blast
qed

lemma extractToolCallFlow_graph_sample:
  "inj_on (\<lambda>(a, b). edgeKey a b)
      (set (zip [''A'', ''B'', ''A'', ''B'', ''C''] (tl [''A'', ''B'', ''A'', ''B'', ''C''])))
   \<and> (2::nat) < length (f_nodes (extractToolCallFlow sample_flow))
   \<and> fn_count (f_nodes (extractToolCallFlow sample_flow) ! 2) = 1
   \<and> \<lparr>e_source = ''A'', e_target = ''B'', e_weight = 2, e_sequence = (0, 1)\<rparr>
        \<in> set (f_links (extractToolCallFlow sample_flow))
   \<and> map (\<lambda>e. (e_source e, e_target e)) (f_links (extractToolCallFlow sample_flow)) =
        [(''A'', ''B''), (''B'', ''A''), (''B'', ''C'')]
   \<and> sum_list (map e_weight (f_links (extractToolCallFlow sample_flow))) = 4"
proof -
  have ev: "inj_on (\<lambda>(a, b). edgeKey a b)
      (set (zip [''A'', ''B'', ''A'', ''B'', ''C''] (tl [''A'', ''B'', ''A'', ''B'', ''C''])))
   \<and> (2::nat) < length (f_nodes (extractToolCallFlow sample_flow))
   \<and> fn_count (f_nodes (extractToolCallFlow sample_flow) ! 2) = 1
   \<and> \<lparr>e_source = ''A'', e_target = ''B'', e_weight = 2, e_sequence = (0, 1)\<rparr>
        \<in> set (f_links (extractToolCallFlow sample_flow))
   \<and> map (\<lambda>e. (e_source e, e_target e)) (f_links (extractToolCallFlow sample_flow)) =
        [(''A'', ''B''), (''B'', ''A''), (''B'', ''C'')]
   \<and> sum_list (map e_weight (f_links (extractToolCallFlow sample_flow))) = 4"
    using edgeKey_inj_on [of "[''A'', ''B'', ''A'', ''B'', ''C'']"]
    by (simp add: sample_flow_graph)
  from extractToolCallFlow_graph [of sample_flow] ev show ?thesis
    by (simp only:)
qed


text \<open>
  Claim C3 on a run whose tool names contain \<open>->\<close>. The claim asks for one link per unique
  consecutive (source, target) pair, with weight the number of times the transition occurs.
  The call sequence a, b->c, a->b, c has three distinct consecutive pairs, each occurring
  once, but the pairs (a, b->c) and (a->b, c) get the same key \<open>a->b->c\<close> in the edge map:
  the code returns only two links, the first with weight 2 although its transition occurs
  once, and no link for the pair (a->b, c).
\<close>

theorem extractToolCallFlow_key_collision:
  "f_callSequence (extractToolCallFlow sample_arrow) = Some [''a'', ''b->c'', ''a->b'', ''c'']
   \<and> f_links (extractToolCallFlow sample_arrow) =
        [\<lparr>e_source = ''a'', e_target = ''b->c'', e_weight = 2, e_sequence = (0, 1)\<rparr>,
         \<lparr>e_source = ''b->c'', e_target = ''a->b'', e_weight = 1, e_sequence = (1, 2)\<rparr>]
   \<and> (''a->b'', ''c'') \<in> set (zip [''a'', ''b->c'', ''a->b'', ''c''] (tl [''a'', ''b->c'', ''a->b'', ''c'']))
   \<and> count_list (zip [''a'', ''b->c'', ''a->b'', ''c''] (tl [''a'', ''b->c'', ''a->b'', ''c'']))
        (''a'', ''b->c'') = 1"
  by code_simp

section \<open>The glyph system\<close>

lemma fold_update_tools:
  "map_of (fold (\<lambda>toolName m'. AList.update toolName g m') tls m) tool =
     (if tool \<in> set tls then Some g else map_of m tool)"
  by (induction tls arbitrary: m) (auto simp: update_conv')

lemma build_toolToGroup_fold:
  "map_of (fold (\<lambda>groupName m.
             fold (\<lambda>toolName m'. AList.update toolName groupName m') (tl_of groupName) m)
          gs m0) tool =
     (case filter (\<lambda>g. tool \<in> set (tl_of g)) gs of
        [] \<Rightarrow> map_of m0 tool
      | f # fs \<Rightarrow> Some (last (f # fs)))"
proof (induction gs arbitrary: m0)
  case Nil
  show ?case by simp
next
  case (Cons g gs)
  show ?case
    by (simp add: Cons.IH fold_update_tools split: list.splits)
qed

lemma build_toolToGroup_lookup:
  "map_of (build_toolToGroup ts gn) tool =
     (case filter (\<lambda>g. tool \<in> set (group_tools ts g)) gn of
        [] \<Rightarrow> None
      | f # fs \<Rightarrow> Some (last (f # fs)))"
  unfolding build_toolToGroup_def
  using build_toolToGroup_fold [of "group_tools ts" gn "[]" tool] by (simp split: list.splits)

lemma fold_groupToGlyph:
  "distinct gn \<Longrightarrow> set gn \<inter> fst ` set m = {} \<Longrightarrow>
   fold (\<lambda>(index, groupName) m.
           AList.update groupName (availableGlyphs ! (index mod length availableGlyphs)) m)
        (enumerate n gn) m =
   m @ map (\<lambda>(index, groupName). (groupName, availableGlyphs ! (index mod length availableGlyphs)))
           (enumerate n gn)"
proof (induction gn arbitrary: n m)
  case Nil
  show ?case by simp
next
  case (Cons g gn)
  from Cons.prems have "map_of m g = None"
    by (auto simp: map_of_eq_None_iff)
  then have u: "AList.update g (availableGlyphs ! (n mod length availableGlyphs)) m
      = m @ [(g, availableGlyphs ! (n mod length availableGlyphs))]"
    by (rule update_fresh)
  from Cons.prems have "distinct gn"
    and "set gn \<inter> fst ` set (m @ [(g, availableGlyphs ! (n mod length availableGlyphs))]) = {}"
    by auto
  from Cons.IH [OF this] u show ?case by simp
qed

lemma build_groupToGlyph_distinct:
  "distinct gn \<Longrightarrow>
   build_groupToGlyph gn =
     map (\<lambda>(index, groupName). (groupName, availableGlyphs ! (index mod length availableGlyphs)))
         (enumerate 0 gn)"
  unfolding build_groupToGlyph_def using fold_groupToGlyph [of gn "[]" 0] by simp

lemma build_groupToGlyph_keys:
  "distinct gn \<Longrightarrow> map fst (build_groupToGlyph gn) = gn"
  by (simp add: build_groupToGlyph_distinct) (rule nth_equalityI, simp_all add: nth_enumerate_eq)

lemma build_groupToGlyph_nth:
  assumes "distinct gn" "i < length gn"
  shows "map_of (build_groupToGlyph gn) (gn ! i) = Some (availableGlyphs ! (i mod 9))"
proof -
  let ?m = "build_groupToGlyph gn"
  have k: "map fst ?m = gn" by (rule build_groupToGlyph_keys [OF assms(1)])
  then have d: "distinct (map fst ?m)" using assms(1) by simp
  have l: "length ?m = length gn" using arg_cong [OF k, of length] by simp
  have "?m ! i = (gn ! i, availableGlyphs ! (i mod 9))"
    using assms by (simp add: build_groupToGlyph_distinct nth_enumerate_eq availableGlyphs_def)
  with map_of_nth [OF d, of i] l assms(2) show ?thesis by simp
qed

lemma availableGlyphs_nonempty: "availableGlyphs ! (i mod 9) \<noteq> []"
proof -
  have "i mod 9 < 9" by simp
  then have "i mod 9 \<in> {0, 1, 2, 3, 4, 5, 6, 7, 8}" by auto
  then show ?thesis by (auto simp: availableGlyphs_def)
qed

lemma sorted_le_last:
  fixes xs :: "string list"
  shows "sorted xs \<Longrightarrow> x \<in> set xs \<Longrightarrow> x \<le> last xs"
  by (induction xs) auto

lemma last_filter_greatest:
  fixes gn :: "string list"
  assumes s: "sorted gn" and g: "g \<in> set gn" "P g"
    and mx: "\<forall>g'\<in>set gn. P g' \<longrightarrow> g' \<le> g"
  shows "\<exists>f fs. filter P gn = f # fs \<and> last (f # fs) = g"
proof -
  let ?fl = "filter P gn"
  from g have mem: "g \<in> set ?fl" by simp
  have ne: "?fl \<noteq> []" using g by (auto simp: filter_empty_conv)
  have sf: "sorted ?fl" using s sorted_filter [of "\<lambda>x. x" gn P] by simp
  from ne have "last ?fl \<in> set ?fl" by (rule last_in_set)
  then have "last ?fl \<le> g" using mx by simp
  moreover have "g \<le> last ?fl"
    by (rule sorted_le_last [OF sf mem])
  ultimately have "last ?fl = g" by simp
  with ne show ?thesis by (cases ?fl) auto
qed

lemma sorted_distinct_Nil_first:
  fixes gn :: "string list"
  assumes "sorted gn" "distinct gn" "i < length gn" "gn ! i = []"
  shows "i = 0"
proof (rule ccontr)
  assume "i \<noteq> 0"
  then have "0 < i" by simp
  have "gn ! 0 \<le> gn ! i" using assms(1,3) by (intro sorted_nth_mono) auto
  with assms(4) have "gn ! 0 = []" by simp
  with assms(4) have "gn ! 0 = gn ! i" by simp
  moreover have "0 < length gn" using assms(3) by (cases gn) simp_all
  ultimately show False
    using nth_eq_iff_index_eq [OF assms(2), of 0 i] assms(3) \<open>0 < i\<close> by simp
qed

lemma or_else_Some: "s \<noteq> [] \<Longrightarrow> or_else (Some s) d = s"
  by (simp add: or_else_def)

lemma or_else_None: "or_else None d = d"
  by (simp add: or_else_def)

lemma createGlyphSystem_getGlyph:
  "getGlyph (createGlyphSystem ts) tool =
     (case map_of (build_toolToGroup ts (sort (map fst ts))) tool of
        None \<Rightarrow> ''circle''
      | Some grp \<Rightarrow>
          if grp = [] then ''circle''
          else or_else (map_of (build_groupToGlyph (sort (map fst ts))) grp) ''circle'')"
  by (simp add: createGlyphSystem_def Let_def)

lemma createGlyphSystem_getGroup:
  "getGroup (createGlyphSystem ts) tool =
     or_else (map_of (build_toolToGroup ts (sort (map fst ts))) tool) ''unknown''"
  by (simp add: createGlyphSystem_def Let_def)

lemma createGlyphSystem_getAllGroups:
  "getAllGroups (createGlyphSystem ts) = map fst (build_groupToGlyph (sort (map fst ts)))"
  by (simp add: createGlyphSystem_def Let_def)

lemma createGlyphSystem_getGroupGlyph:
  "getGroupGlyph (createGlyphSystem ts) g =
     or_else (map_of (build_groupToGlyph (sort (map fst ts))) g) ''circle''"
  by (simp add: createGlyphSystem_def Let_def)

lemma groupGlyph_rank:
  assumes d: "distinct (map fst ts)" and i: "i < length ts"
  shows "getGroupGlyph (createGlyphSystem ts) (sort (map fst ts) ! i) = availableGlyphs ! (i mod 9)"
proof -
  let ?gn = "sort (map fst ts)"
  have "distinct ?gn" using d by simp
  moreover have "i < length ?gn" using i by simp
  ultimately have "map_of (build_groupToGlyph ?gn) (?gn ! i) = Some (availableGlyphs ! (i mod 9))"
    by (rule build_groupToGlyph_nth)
  then show ?thesis
    by (simp add: createGlyphSystem_getGroupGlyph or_else_Some availableGlyphs_nonempty)
qed

lemma glyph_unknown:
  assumes "\<forall>g\<in>fst ` set ts. tool \<notin> set (group_tools ts g)"
  shows "getGlyph (createGlyphSystem ts) tool = ''circle''
       \<and> getGroup (createGlyphSystem ts) tool = ''unknown''"
proof -
  have "filter (\<lambda>g. tool \<in> set (group_tools ts g)) (sort (map fst ts)) = []"
    using assms by (auto simp: filter_empty_conv)
  then have "map_of (build_toolToGroup ts (sort (map fst ts))) tool = None"
    by (simp add: build_toolToGroup_lookup)
  then show ?thesis
    by (simp add: createGlyphSystem_getGlyph createGlyphSystem_getGroup or_else_None)
qed

lemma glyph_of_group:
  assumes d: "distinct (map fst ts)"
    and g: "g \<in> fst ` set ts" "tool \<in> set (group_tools ts g)"
    and mx: "\<forall>g'\<in>fst ` set ts. tool \<in> set (group_tools ts g') \<longrightarrow> g' \<le> g"
  shows "getGlyph (createGlyphSystem ts) tool = getGroupGlyph (createGlyphSystem ts) g
       \<and> (g \<noteq> [] \<longrightarrow> getGroup (createGlyphSystem ts) tool = g)"
proof -
  let ?gn = "sort (map fst ts)"
  let ?P = "\<lambda>g. tool \<in> set (group_tools ts g)"
  have s: "sorted ?gn" by simp
  have dg: "distinct ?gn" using d by simp
  have gm: "g \<in> set ?gn" using g(1) by simp
  have "\<forall>g'\<in>set ?gn. ?P g' \<longrightarrow> g' \<le> g" using mx by simp
  from last_filter_greatest [OF s gm g(2) this]
  have look: "map_of (build_toolToGroup ts ?gn) tool = Some g"
    by (auto simp: build_toolToGroup_lookup)
  show ?thesis
  proof (cases "g = []")
    case False
    with look show ?thesis
      by (simp add: createGlyphSystem_getGlyph createGlyphSystem_getGroup
          createGlyphSystem_getGroupGlyph or_else_Some)
  next
    case True
    from gm obtain i where i: "i < length ?gn" "?gn ! i = g"
      unfolding in_set_conv_nth by blast
    with True have "i = 0" using sorted_distinct_Nil_first [OF s dg] by simp
    with i have "map_of (build_groupToGlyph ?gn) g = Some (availableGlyphs ! (0 mod 9))"
      using build_groupToGlyph_nth [OF dg, of 0] by auto
    then have "getGroupGlyph (createGlyphSystem ts) g = ''circle''"
      by (simp add: createGlyphSystem_getGroupGlyph or_else_def availableGlyphs_def)
    with look True show ?thesis
      by (simp add: createGlyphSystem_getGlyph)
  qed
qed

lemma createGlyphSystem_cong:
  assumes d: "distinct (map fst ts)" and d': "distinct (map fst ts')" and eq: "set ts' = set ts"
  shows "createGlyphSystem ts' = createGlyphSystem ts"
proof -
  have "set (map fst ts') = set (map fst ts)" using eq by simp
  then have gn: "sort (map fst ts') = sort (map fst ts)"
    using d d' by (intro sorted_distinct_set_unique) simp_all
  have "map_of ts' = map_of ts"
    using map_of_inject_set [OF d' d] eq by simp
  then have "group_tools ts' = group_tools ts"
    by (intro ext) (simp add: group_tools_def)
  then have "build_toolToGroup ts' = build_toolToGroup ts"
    by (intro ext) (simp add: build_toolToGroup_def)
  with gn show ?thesis
    by (simp add: createGlyphSystem_def)
qed


lemma sample_toolSets_eval:
  "getAllGroups (createGlyphSystem sample_toolSets) = [''data_tools'', ''literature_tools'']
   \<and> getGroupGlyph (createGlyphSystem sample_toolSets) ''literature_tools'' = ''cross''
   \<and> getGlyph (createGlyphSystem sample_toolSets) ''query_table'' = ''cross''
   \<and> getGroup (createGlyphSystem sample_toolSets) ''query_table'' = ''literature_tools''
   \<and> getGlyph (createGlyphSystem sample_toolSets) ''csv_join'' = ''circle''
   \<and> getGlyph (createGlyphSystem sample_toolSets) ''web_search'' = ''circle''
   \<and> getGroup (createGlyphSystem sample_toolSets) ''web_search'' = ''unknown''"
  by code_simp


text \<open>
  Claim C4. For every taxonomy (an object, so its keys are distinct), \<open>createGlyphSystem\<close>
  is deterministic: the groups are the group names sorted lexicographically, the group at
  sorted rank \<open>i\<close> receives palette glyph \<open>i mod 9\<close>, a tool gets the glyph of its group
  (of the greatest group that lists it, when several do), and a taxonomy with the same
  entries in another key order yields the same glyph system. A tool absent from all groups
  resolves to glyph \<open>circle\<close> and group \<open>unknown\<close>.
\<close>

theorem createGlyphSystem_deterministic:
  assumes d: "distinct (map fst toolSets)"
    and d': "distinct (map fst toolSets')" and eq: "set toolSets' = set toolSets"
  shows "createGlyphSystem toolSets' = createGlyphSystem toolSets
       \<and> getAllGroups (createGlyphSystem toolSets) = sort (map fst toolSets)
       \<and> (\<forall>i<length toolSets.
             getGroupGlyph (createGlyphSystem toolSets) (sort (map fst toolSets) ! i)
               = availableGlyphs ! (i mod 9))
       \<and> (\<forall>tool g.
             g \<in> fst ` set toolSets \<and> tool \<in> set (group_tools toolSets g)
             \<and> (\<forall>g'\<in>fst ` set toolSets. tool \<in> set (group_tools toolSets g') \<longrightarrow> g' \<le> g)
             \<longrightarrow> getGlyph (createGlyphSystem toolSets) tool
                   = getGroupGlyph (createGlyphSystem toolSets) g
               \<and> (g \<noteq> [] \<longrightarrow> getGroup (createGlyphSystem toolSets) tool = g))
       \<and> (\<forall>tool.
             (\<forall>g\<in>fst ` set toolSets. tool \<notin> set (group_tools toolSets g))
             \<longrightarrow> getGlyph (createGlyphSystem toolSets) tool = ''circle''
               \<and> getGroup (createGlyphSystem toolSets) tool = ''unknown'')"
proof (intro conjI allI impI)
  show "createGlyphSystem toolSets' = createGlyphSystem toolSets"
    by (rule createGlyphSystem_cong [OF d d' eq])
next
  show "getAllGroups (createGlyphSystem toolSets) = sort (map fst toolSets)"
    using d by (simp add: createGlyphSystem_getAllGroups build_groupToGlyph_keys)
next
  fix i assume "i < length toolSets"
  then show "getGroupGlyph (createGlyphSystem toolSets) (sort (map fst toolSets) ! i)
               = availableGlyphs ! (i mod 9)"
    by (rule groupGlyph_rank [OF d])
next
  fix tool g
  assume a: "g \<in> fst ` set toolSets \<and> tool \<in> set (group_tools toolSets g)
             \<and> (\<forall>g'\<in>fst ` set toolSets. tool \<in> set (group_tools toolSets g') \<longrightarrow> g' \<le> g)"
  then show "getGlyph (createGlyphSystem toolSets) tool
                   = getGroupGlyph (createGlyphSystem toolSets) g"
    using glyph_of_group [OF d, of g tool] by blast
  assume "g \<noteq> []"
  with a show "getGroup (createGlyphSystem toolSets) tool = g"
    using glyph_of_group [OF d, of g tool] by blast
next
  fix tool
  assume a: "\<forall>g\<in>fst ` set toolSets. tool \<notin> set (group_tools toolSets g)"
  then show "getGlyph (createGlyphSystem toolSets) tool = ''circle''"
    using glyph_unknown [of toolSets tool] by blast
  from a show "getGroup (createGlyphSystem toolSets) tool = ''unknown''"
    using glyph_unknown [of toolSets tool] by blast
qed

theorem createGlyphSystem_deterministic_witness:
  "distinct (map fst sample_toolSets) \<and> distinct (map fst (rev sample_toolSets))
   \<and> set (rev sample_toolSets) = set sample_toolSets
   \<and> createGlyphSystem (rev sample_toolSets) = createGlyphSystem sample_toolSets
   \<and> (1::nat) < length sample_toolSets
   \<and> getGroupGlyph (createGlyphSystem sample_toolSets) ''literature_tools'' = ''cross''
   \<and> getGlyph (createGlyphSystem sample_toolSets) ''query_table'' = ''cross''
   \<and> getGlyph (createGlyphSystem sample_toolSets) ''web_search'' = ''circle''
   \<and> getGroup (createGlyphSystem sample_toolSets) ''web_search'' = ''unknown''"
proof -
  have h1: "distinct (map fst sample_toolSets)" "distinct (map fst (rev sample_toolSets))"
    by (simp_all add: sample_toolSets_def)
  have h2: "set (rev sample_toolSets) = set sample_toolSets"
    by simp
  note h = h1 h2
  have l: "(1::nat) < length sample_toolSets" by (simp add: sample_toolSets_def)
  from createGlyphSystem_deterministic [OF h] h l sample_toolSets_eval show ?thesis
    by (simp only:)
qed

section \<open>Results that match no request\<close>

lemma order_map_name:
  assumes om: "order_toolCallMap outs = (m, k)" and i: "i < length m"
  shows "\<exists>c. find (\<lambda>c. tc_id c = fst (m ! i)) (concat (map output_calls outs)) = Some c
           \<and> ce_name (snd (m ! i)) = tc_name c \<and> ce_args (snd (m ! i)) = tc_args c"
proof -
  from order_map_entry [OF om i] obtain j c where
    fd: "find (\<lambda>p. tc_id (snd p) = fst (m ! i)) (indexed_calls 0 outs) = Some (j, c)"
    and e: "snd (m ! i) = \<lparr>ce_id = fst (m ! i), ce_name = tc_name c, ce_index = i,
                             ce_args = tc_args c, ce_outputIndex = j\<rparr>"
    by blast
  have "find (\<lambda>c. tc_id c = fst (m ! i)) (map snd (indexed_calls 0 outs)) = Some c"
    unfolding find_map_snd using fd by simp
  then have "find (\<lambda>c. tc_id c = fst (m ! i)) (concat (map output_calls outs)) = Some c"
    by (simp add: snd_indexed_calls)
  with e show ?thesis by simp
qed

lemma extractToolCallOrder_calls:
  "extractToolCallOrder t =
     \<lparr>nodes = map (\<lambda>i. \<lparr>n_id = first_seen (map tc_id (tracing_calls t)) ! i,
                         n_name = tc_name (the (find (\<lambda>c. tc_id c = first_seen (map tc_id (tracing_calls t)) ! i)
                                                 (tracing_calls t))),
                         n_index = i, n_callIndex = i\<rparr>)
                 [0..<length (first_seen (map tc_id (tracing_calls t)))],
      links = map (\<lambda>i. \<lparr>l_source = first_seen (map tc_id (tracing_calls t)) ! i,
                         l_target = first_seen (map tc_id (tracing_calls t)) ! Suc i,
                         l_weight = 1\<rparr>)
                 [0..<length (first_seen (map tc_id (tracing_calls t))) - 1]\<rparr>"
proof (cases "\<exists>os outs. outputs t = Some os \<and> messages os = Some outs")
  case False
  then have "extractToolCallOrder t = \<lparr>nodes = [], links = []\<rparr>" "tracing_calls t = []"
    by (auto simp: extractToolCallOrder_def tracing_calls_def tracing_messages_def
        split: option.splits)
  then show ?thesis by simp
next
  case True
  then obtain os outs where o: "outputs t = Some os" "messages os = Some outs" by blast
  obtain m k where om: "order_toolCallMap outs = (m, k)" by (cases "order_toolCallMap outs")
  let ?calls = "tracing_calls t"
  let ?K = "first_seen (map tc_id ?calls)"
  have calls: "?calls = concat (map output_calls outs)"
    using o by (simp add: tracing_calls_def tracing_messages_def)
  have keys: "map fst m = ?K"
    using order_map_keys [OF om] calls by simp
  have len: "length m = length ?K"
    using arg_cong [OF keys, of length] by simp
  have key: "\<And>i. i < length m \<Longrightarrow> fst (m ! i) = ?K ! i"
  proof -
    fix i assume "i < length m"
    then show "fst (m ! i) = ?K ! i"
      using arg_cong [OF keys, of "\<lambda>xs. xs ! i"] by simp
  qed
  have name: "\<And>i. i < length m \<Longrightarrow>
      ce_name (snd (m ! i)) = tc_name (the (find (\<lambda>c. tc_id c = ?K ! i) ?calls))"
  proof -
    fix i assume i: "i < length m"
    from order_map_name [OF om i] key [OF i] calls show
      "ce_name (snd (m ! i)) = tc_name (the (find (\<lambda>c. tc_id c = ?K ! i) ?calls))"
      by auto
  qed
  have n: "nodes (extractToolCallOrder t) =
      map (\<lambda>i. \<lparr>n_id = ?K ! i, n_name = tc_name (the (find (\<lambda>c. tc_id c = ?K ! i) ?calls)),
                 n_index = i, n_callIndex = i\<rparr>) [0..<length ?K]"
    unfolding extractToolCallOrder_nodes [OF o om] len
    by (rule map_cong) (simp_all add: key name len)
  have l: "links (extractToolCallOrder t) =
      map (\<lambda>i. \<lparr>l_source = ?K ! i, l_target = ?K ! Suc i, l_weight = 1\<rparr>) [0..<length ?K - 1]"
    unfolding extractToolCallOrder_links [OF o om] len
    by (rule map_cong) (simp_all add: key len)
  show ?thesis
    using n l by (cases "extractToolCallOrder t") simp
qed

lemma forEach_append:
  "forEach f (xs @ ys) s = (case forEach f xs s of Inl e \<Rightarrow> Inl e | Inr s' \<Rightarrow> forEach f ys s')"
  by (induction xs arbitrary: s) (simp_all split: sum.splits)

lemma fold_getTools_toolCall_keys:
  "fst ` set (fst (snd (fold getTools_toolCall tcs st))) = fst ` set (fst (snd st)) \<union> tc_id ` set tcs"
proof (induction tcs arbitrary: st)
  case Nil
  show ?case by simp
next
  case (Cons tc tcs)
  obtain tls calls con where st: "st = (tls, calls, con)" by (cases st)
  show ?case
    unfolding st by (auto simp: Cons.IH Let_def dom_update)
qed

lemma getTools_output_keys:
  assumes "getTools_output out (tls, calls, con) = Inr (tls', calls', con')"
  shows "fst ` set calls' = fst ` set calls \<union> tc_id ` set (output_calls out)"
proof (cases "tool_calls out")
  case (Present tcs)
  with assms have "fold getTools_toolCall tcs (tls, calls, con) = (tls', calls', con')" by simp
  from arg_cong [OF this, of "\<lambda>st. fst ` set (fst (snd st))"] Present show ?thesis
    by (simp add: fold_getTools_toolCall_keys output_calls_def)
next
  case Falsy
  with assms show ?thesis by simp
next
  case Absent
  show ?thesis
  proof (cases "tool_call_id out")
    case None
    with Absent assms show ?thesis by (simp add: output_calls_def)
  next
    case (Some cid)
    show ?thesis
    proof (cases "map_of calls cid")
      case None
      with Some Absent assms show ?thesis by (simp add: output_calls_def)
    next
      case (Some info)
      then have "(cid, info) \<in> set calls" by (rule map_of_SomeD)
      then have mem: "cid \<in> fst ` set calls" by (rule image_eqI [rotated]) simp
      from Some \<open>tool_call_id out = Some cid\<close> Absent assms
      have "calls' = AList.update cid (info\<lparr>ci_status := status out, ci_content := content out\<rparr>) calls"
        by simp
      then have "fst ` set calls' = {cid} \<union> fst ` set calls"
        by (simp only: dom_update)
      with mem Absent show ?thesis
        by (auto simp: output_calls_def)
    qed
  qed
qed

lemma forEach_getTools_output_keys:
  "forEach getTools_output outs (tls, calls, con) = Inr (tls', calls', con') \<Longrightarrow>
   fst ` set calls' = fst ` set calls \<union> tc_id ` set (concat (map output_calls outs))"
proof (induction outs arbitrary: tls calls con)
  case Nil
  then show ?case by simp
next
  case (Cons out outs)
  from Cons.prems obtain tls1 calls1 con1 where
    s1: "getTools_output out (tls, calls, con) = Inr (tls1, calls1, con1)"
    and s2: "forEach getTools_output outs (tls1, calls1, con1) = Inr (tls', calls', con')"
    by (auto split: sum.splits simp del: getTools_output.simps)
  from getTools_output_keys [OF s1] Cons.IH [OF s2] show ?case by auto
qed

lemma getTools_output_dangling:
  assumes "tool_calls ev = Absent" "tool_call_id ev = Some x" "x \<notin> fst ` set calls"
  shows "getTools_output ev (tls, calls, con) = Inr (tls, calls, con)"
proof -
  from assms(3) have "map_of calls x = None" by (simp add: map_of_eq_None_iff)
  with assms(1,2) show ?thesis by simp
qed

lemma forEach_getTools_output_dangling:
  assumes ev: "tool_calls ev = Absent" "tool_call_id ev = Some x"
    and x: "x \<notin> tc_id ` set (concat (map output_calls pre))"
  shows "forEach getTools_output (pre @ ev # post) (tls, [], con) =
         forEach getTools_output (pre @ post) (tls, [], con)"
proof (cases "forEach getTools_output pre (tls, [], con)")
  case (Inl e)
  then show ?thesis by (simp add: forEach_append)
next
  case (Inr st)
  obtain tls1 calls1 con1 where st: "st = (tls1, calls1, con1)" by (cases st)
  from forEach_getTools_output_keys [OF Inr [unfolded st]] x
  have "x \<notin> fst ` set calls1" by simp
  from getTools_output_dangling [OF ev this]
  have "getTools_output ev (tls1, calls1, con1) = Inr (tls1, calls1, con1)" .
  with Inr st show ?thesis
    by (simp add: forEach_append del: getTools_output.simps)
qed

lemma getTools_cong_tracing:
  assumes "\<And>acc. getTools_tracing t acc = getTools_tracing t' acc"
  shows "getTools (before @ t # after) = getTools (before @ t' # after)"
proof (cases "forEach getTools_tracing before ([], [], [])")
  case (Inl e)
  then show ?thesis by (simp add: getTools_def forEach_append)
next
  case (Inr s)
  then show ?thesis
    by (simp add: getTools_def forEach_append assms del: getTools_tracing.simps)
qed

lemma extractToolCallOrder_cong:
  "tracing_calls t = tracing_calls t' \<Longrightarrow> extractToolCallOrder t = extractToolCallOrder t'"
  by (simp add: extractToolCallOrder_calls [of t] extractToolCallOrder_calls [of t'])

lemma extractToolCallFlow_cong:
  assumes o: "outputs t = Some os" "messages os = Some outs"
    and o': "outputs t' = Some os'" "messages os' = Some outs'"
    and c: "tracing_calls t = tracing_calls t'"
  shows "extractToolCallFlow t = extractToolCallFlow t'"
proof -
  have "flow_callSequence outs = flow_callSequence outs'"
    unfolding flow_callSequence_nodes [OF o] flow_callSequence_nodes [OF o']
    by (simp add: extractToolCallOrder_cong [OF c])
  then show ?thesis
    by (simp add: extractToolCallFlow_Some [OF o] extractToolCallFlow_Some [OF o'])
qed


text \<open>
  Claim C7. Let a trace contain a result event (no \<open>tool_calls\<close> key, a \<open>tool_call_id\<close>) whose
  id matches no request emitted before it in that trace. Then each extraction returns what it
  returns on the same trace with that event omitted: \<open>getTools\<close> (for any traces before and
  after it in the list, result and console alike, an exception included), \<open>extractToolCallOrder\<close>
  and \<open>extractToolCallFlow\<close>. So the dangling result adds no node, no edge and no tool-call
  record, and the remaining events are processed as without it.
\<close>

theorem dangling_result_dropped:
  assumes ev: "tool_calls ev = Absent" "tool_call_id ev = Some x"
    and x: "x \<notin> tc_id ` set (concat (map output_calls pre))"
    and t: "outputs t = Some os" "messages os = Some (pre @ ev # post)"
    and t': "t' = t\<lparr>outputs := Some (os\<lparr>messages := Some (pre @ post)\<rparr>)\<rparr>"
  shows "getTools (before @ t # after) = getTools (before @ t' # after)
       \<and> extractToolCallOrder t = extractToolCallOrder t'
       \<and> extractToolCallFlow t = extractToolCallFlow t'"
proof -
  have o': "outputs t' = Some (os\<lparr>messages := Some (pre @ post)\<rparr>)"
    "messages (os\<lparr>messages := Some (pre @ post)\<rparr>) = Some (pre @ post)"
    by (simp_all add: t')
  have "output_calls ev = []" using ev(1) by (simp add: output_calls_def)
  then have c: "tracing_calls t = tracing_calls t'"
    using t o' by (simp add: tracing_calls_def tracing_messages_def)
  have tr: "\<And>acc. getTools_tracing t acc = getTools_tracing t' acc"
  proof -
    fix acc :: getTools_acc
    obtain tls ttc con where acc: "acc = (tls, ttc, con)" by (cases acc)
    have "tr_id t' = tr_id t" "score t' = score t" by (simp_all add: t')
    then show "getTools_tracing t acc = getTools_tracing t' acc"
      unfolding acc using t o' forEach_getTools_output_dangling [OF ev x, of post tls con]
      by (simp split: sum.splits)
  qed
  have "getTools (before @ t # after) = getTools (before @ t' # after)"
    by (rule getTools_cong_tracing [OF tr])
  moreover have "extractToolCallOrder t = extractToolCallOrder t'"
    by (rule extractToolCallOrder_cong [OF c])
  moreover have "extractToolCallFlow t = extractToolCallFlow t'"
    by (rule extractToolCallFlow_cong [OF t o' c])
  ultimately show ?thesis by simp
qed

theorem dangling_result_dropped_witness:
  "tool_calls dangling_result = Absent \<and> tool_call_id dangling_result = Some ''x''
   \<and> ''x'' \<notin> tc_id ` set (concat (map output_calls [call_event [request ''c1'' ''A'']]))
   \<and> getTools [sample_dangling] =
       getTools [run_of [call_event [request ''c1'' ''A''], call_event [request ''c2'' ''B'']]]
   \<and> extractToolCallOrder sample_dangling =
       extractToolCallOrder (run_of [call_event [request ''c1'' ''A''], call_event [request ''c2'' ''B'']])
   \<and> extractToolCallFlow sample_dangling =
       extractToolCallFlow (run_of [call_event [request ''c1'' ''A''], call_event [request ''c2'' ''B'']])"
  using dangling_result_dropped [of dangling_result "''x''" "[call_event [request ''c1'' ''A'']]"
      sample_dangling
      "\<lparr>messages = Some [call_event [request ''c1'' ''A''], dangling_result, call_event [request ''c2'' ''B'']]\<rparr>"
      "[call_event [request ''c2'' ''B'']]"
      "run_of [call_event [request ''c1'' ''A''], call_event [request ''c2'' ''B'']]" "[]" "[]"]
  by (simp add: dangling_result_def sample_dangling_def run_of_def call_event_def request_def
      output_calls_def)

section \<open>Traces without outputs\<close>

lemma getTools_empty_messages:
  assumes "outputs t = Some os" "messages os = Some []"
  shows "getTools [t] =
           Inr (\<lparr>tools = [],
                 tracingToolCalls = [(tr_id t, \<lparr>toolCalls = [], entry_score = score t\<rparr>)]\<rparr>, [])"
    and "extractToolCallOrder t = \<lparr>nodes = [], links = []\<rparr>"
    and "extractToolCallFlow t = \<lparr>f_nodes = [], f_links = [], f_callSequence = Some []\<rparr>"
  using assms
  by (simp_all add: getTools_def extractToolCallOrder_def extractToolCallFlow_def
      order_toolCallMap_def flow_callSequence_def flow_edgeMap_def)


text \<open>
  Claim C8 on a trace without outputs. \<open>extractToolCallOrder\<close> and \<open>extractToolCallFlow\<close>
  guard against a missing \<open>outputs\<close> or \<open>outputs.messages\<close> and return empty nodes and links;
  \<open>getTools\<close> reads \<open>tracing.outputs.messages\<close> without that guard and throws a TypeError
  instead of returning an empty tool-call map. (With an empty \<open>messages\<close> array all three
  return empty results, lemma \<open>getTools_empty_messages\<close>.)
\<close>

theorem getTools_missing_outputs:
  "getTools [sample_no_outputs] = Inl TypeError
   \<and> getTools [sample_no_messages] = Inl TypeError
   \<and> extractToolCallOrder sample_no_outputs = \<lparr>nodes = [], links = []\<rparr>
   \<and> extractToolCallOrder sample_no_messages = \<lparr>nodes = [], links = []\<rparr>
   \<and> extractToolCallFlow sample_no_outputs = \<lparr>f_nodes = [], f_links = [], f_callSequence = None\<rparr>
   \<and> extractToolCallFlow sample_no_messages = \<lparr>f_nodes = [], f_links = [], f_callSequence = None\<rparr>"
  by (simp add: sample_no_outputs_def sample_no_messages_def getTools_def
      extractToolCallOrder_def extractToolCallFlow_def)

section \<open>Requests that share a call id\<close>

lemma fold_getTools_toolCall_lookup:
  "map_option (\<lambda>i. (ci_name i, ci_args i)) (map_of (fst (snd (fold getTools_toolCall tcs st))) x) =
     (if filter (\<lambda>c. tc_id c = x) tcs = []
      then map_option (\<lambda>i. (ci_name i, ci_args i)) (map_of (fst (snd st)) x)
      else Some (tc_name (last (filter (\<lambda>c. tc_id c = x) tcs)),
                 tc_args (last (filter (\<lambda>c. tc_id c = x) tcs))))"
proof (induction tcs arbitrary: st)
  case Nil
  show ?case by simp
next
  case (Cons tc tcs)
  obtain tls calls con where st: "st = (tls, calls, con)" by (cases st)
  show ?case
    unfolding st by (simp add: Cons.IH Let_def update_conv')
qed

lemma getTools_output_lookup:
  assumes "getTools_output out (tls, calls, con) = Inr (tls', calls', con')"
  shows "map_option (\<lambda>i. (ci_name i, ci_args i)) (map_of calls' x) =
     (if filter (\<lambda>c. tc_id c = x) (output_calls out) = []
      then map_option (\<lambda>i. (ci_name i, ci_args i)) (map_of calls x)
      else Some (tc_name (last (filter (\<lambda>c. tc_id c = x) (output_calls out))),
                 tc_args (last (filter (\<lambda>c. tc_id c = x) (output_calls out)))))"
proof (cases "tool_calls out")
  case (Present tcs)
  with assms have "fold getTools_toolCall tcs (tls, calls, con) = (tls', calls', con')" by simp
  from arg_cong [OF this, of "\<lambda>st. fst (snd st)"]
  have "calls' = fst (snd (fold getTools_toolCall tcs (tls, calls, con)))" by simp
  with Present show ?thesis
    by (simp add: fold_getTools_toolCall_lookup output_calls_def)
next
  case Falsy
  with assms show ?thesis by simp
next
  case Absent
  with assms show ?thesis
    by (auto simp: output_calls_def update_conv' split: option.splits)
qed

lemma forEach_getTools_output_lookup:
  "forEach getTools_output outs (tls, calls, con) = Inr (tls', calls', con') \<Longrightarrow>
   map_option (\<lambda>i. (ci_name i, ci_args i)) (map_of calls' x) =
     (if filter (\<lambda>c. tc_id c = x) (concat (map output_calls outs)) = []
      then map_option (\<lambda>i. (ci_name i, ci_args i)) (map_of calls x)
      else Some (tc_name (last (filter (\<lambda>c. tc_id c = x) (concat (map output_calls outs)))),
                 tc_args (last (filter (\<lambda>c. tc_id c = x) (concat (map output_calls outs))))))"
proof (induction outs arbitrary: tls calls con)
  case Nil
  then show ?case by simp
next
  case (Cons out outs)
  from Cons.prems obtain tls1 calls1 con1 where
    s1: "getTools_output out (tls, calls, con) = Inr (tls1, calls1, con1)"
    and s2: "forEach getTools_output outs (tls1, calls1, con1) = Inr (tls', calls', con')"
    by (auto split: sum.splits simp del: getTools_output.simps)
  show ?case
    unfolding Cons.IH [OF s2] getTools_output_lookup [OF s1]
    by simp
qed

lemma find_hd_filter: "find P xs = Some y \<Longrightarrow> y = hd (filter P xs)"
  by (induction xs) (auto split: if_splits)

lemma getTools_single:
  assumes "getTools [t] = Inr (r, con)"
  shows "\<exists>os outs tls calls.
           outputs t = Some os \<and> messages os = Some outs
         \<and> forEach getTools_output outs ([], [], []) = Inr (tls, calls, con)
         \<and> tracingToolCalls r = [(tr_id t, \<lparr>toolCalls = calls, entry_score = score t\<rparr>)]"
  using assms
  by (auto simp: getTools_def split: option.splits sum.splits)

lemma order_map_first:
  assumes om: "order_toolCallMap outs = (m, k)"
    and c: "c \<in> set (concat (map output_calls outs))"
  shows "\<exists>i<length m. fst (m ! i) = tc_id c
           \<and> map_of m (tc_id c) = Some (snd (m ! i))
           \<and> ce_name (snd (m ! i)) =
               tc_name (hd (filter (\<lambda>d. tc_id d = tc_id c) (concat (map output_calls outs))))
           \<and> ce_args (snd (m ! i)) =
               tc_args (hd (filter (\<lambda>d. tc_id d = tc_id c) (concat (map output_calls outs))))"
proof -
  have keys: "map fst m = first_seen (map tc_id (concat (map output_calls outs)))"
    by (rule order_map_keys [OF om])
  then have d: "distinct (map fst m)" by simp
  from c have "tc_id c \<in> set (map fst m)" unfolding keys by simp
  then obtain i where i: "i < length m" "fst (m ! i) = tc_id c"
    unfolding in_set_conv_nth by auto
  from order_map_name [OF om i(1)] obtain c' where
    c': "find (\<lambda>d. tc_id d = fst (m ! i)) (concat (map output_calls outs)) = Some c'"
        "ce_name (snd (m ! i)) = tc_name c'" "ce_args (snd (m ! i)) = tc_args c'"
    by blast
  from find_hd_filter [OF c'(1)] i(2)
  have "c' = hd (filter (\<lambda>d. tc_id d = tc_id c) (concat (map output_calls outs)))" by simp
  with c' i map_of_nth [OF d i(1)] show ?thesis by auto
qed


lemma sample_dup_getTools:
  "getTools [sample_dup] =
     Inr (\<lparr>tools = [''A'', ''B'', ''Z''],
           tracingToolCalls =
             [(None,
               \<lparr>toolCalls =
                  [(''c1'', \<lparr>ci_id = ''c1'', ci_name = ''Z'', ci_type = None,
                             ci_args = Some ''x=2'', ci_status = None, ci_content = None\<rparr>),
                   (''c2'', \<lparr>ci_id = ''c2'', ci_name = ''B'', ci_type = None,
                             ci_args = None, ci_status = None, ci_content = None\<rparr>),
                   (''c3'', \<lparr>ci_id = ''c3'', ci_name = ''A'', ci_type = None,
                             ci_args = None, ci_status = None, ci_content = None\<rparr>)],
                entry_score = None\<rparr>)]\<rparr>, [])"
  by code_simp


text \<open>
  Claim C10. When a trace requests the same call id more than once, the per-trace
  \<open>toolCalls\<close> map of \<open>getTools\<close> holds, under that id, the name and arguments of the last
  request with the id (last write wins), whereas the order-graph extraction keeps the name and
  arguments of the first request with the id, in its map and in its node, and the call
  sequence of the flow graph is the sequence of those first-occurrence names.
\<close>

theorem duplicate_call_id_last_vs_first:
  assumes g: "getTools [t] = Inr (r, con)" and c: "c \<in> set (tracing_calls t)"
  shows "(\<exists>e info. map_of (tracingToolCalls r) (tr_id t) = Some e
            \<and> map_of (toolCalls e) (tc_id c) = Some info
            \<and> ci_name info = tc_name (last (filter (\<lambda>d. tc_id d = tc_id c) (tracing_calls t)))
            \<and> ci_args info = tc_args (last (filter (\<lambda>d. tc_id d = tc_id c) (tracing_calls t))))
       \<and> (\<exists>e. map_of (fst (order_toolCallMap (tracing_messages t))) (tc_id c) = Some e
            \<and> ce_name e = tc_name (hd (filter (\<lambda>d. tc_id d = tc_id c) (tracing_calls t)))
            \<and> ce_args e = tc_args (hd (filter (\<lambda>d. tc_id d = tc_id c) (tracing_calls t))))
       \<and> (\<exists>n\<in>set (nodes (extractToolCallOrder t)). n_id n = tc_id c
            \<and> n_name n = tc_name (hd (filter (\<lambda>d. tc_id d = tc_id c) (tracing_calls t))))
       \<and> f_callSequence (extractToolCallFlow t) = Some (map n_name (nodes (extractToolCallOrder t)))"
proof -
  from getTools_single [OF g] obtain os outs tls calls where
    o: "outputs t = Some os" "messages os = Some outs"
    and f: "forEach getTools_output outs ([], [], []) = Inr (tls, calls, con)"
    and r: "tracingToolCalls r = [(tr_id t, \<lparr>toolCalls = calls, entry_score = score t\<rparr>)]"
    by blast
  have msgs: "tracing_messages t = outs" using o by (simp add: tracing_messages_def)
  have calls: "tracing_calls t = concat (map output_calls outs)"
    using o by (simp add: tracing_calls_def tracing_messages_def)
  let ?same = "filter (\<lambda>d. tc_id d = tc_id c) (tracing_calls t)"
  from c have ne: "?same \<noteq> []" by (auto simp: filter_empty_conv)
  have "map_option (\<lambda>i. (ci_name i, ci_args i)) (map_of calls (tc_id c)) =
          Some (tc_name (last ?same), tc_args (last ?same))"
    using forEach_getTools_output_lookup [OF f, of "tc_id c"] ne unfolding calls by simp
  then obtain info where "map_of calls (tc_id c) = Some info"
    "ci_name info = tc_name (last ?same)" "ci_args info = tc_args (last ?same)"
    by auto
  with r have p1: "\<exists>e info. map_of (tracingToolCalls r) (tr_id t) = Some e
            \<and> map_of (toolCalls e) (tc_id c) = Some info
            \<and> ci_name info = tc_name (last ?same) \<and> ci_args info = tc_args (last ?same)"
    by simp
  obtain m k where om: "order_toolCallMap outs = (m, k)" by (cases "order_toolCallMap outs")
  from c have c': "c \<in> set (concat (map output_calls outs))" unfolding calls .
  from order_map_first [OF om c'] obtain i where
    i: "i < length m" "fst (m ! i) = tc_id c" "map_of m (tc_id c) = Some (snd (m ! i))"
       "ce_name (snd (m ! i)) = tc_name (hd ?same)" "ce_args (snd (m ! i)) = tc_args (hd ?same)"
    unfolding calls by blast
  then have p2: "\<exists>e. map_of (fst (order_toolCallMap (tracing_messages t))) (tc_id c) = Some e
            \<and> ce_name e = tc_name (hd ?same) \<and> ce_args e = tc_args (hd ?same)"
    by (simp add: msgs om)
  have nd: "nodes (extractToolCallOrder t) ! i =
      \<lparr>n_id = fst (m ! i), n_name = ce_name (snd (m ! i)), n_index = i, n_callIndex = i\<rparr>"
    and ln: "length (nodes (extractToolCallOrder t)) = length m"
    using i(1) by (simp_all add: extractToolCallOrder_nodes [OF o om])
  have "nodes (extractToolCallOrder t) ! i \<in> set (nodes (extractToolCallOrder t))"
    using i(1) ln by simp
  with nd i have p3: "\<exists>n\<in>set (nodes (extractToolCallOrder t)). n_id n = tc_id c
            \<and> n_name n = tc_name (hd ?same)"
    by (intro bexI [of _ "nodes (extractToolCallOrder t) ! i"]) simp_all
  have p4: "f_callSequence (extractToolCallFlow t) = Some (map n_name (nodes (extractToolCallOrder t)))"
    by (simp add: extractToolCallFlow_Some [OF o] flow_callSequence_nodes [OF o])
  from p1 p2 p3 p4 show ?thesis by blast
qed


theorem duplicate_call_id_last_vs_first_witness:
  "(\<exists>r con. getTools [sample_dup] = Inr (r, con)
      \<and> map_option (\<lambda>e. map_option (\<lambda>i. (ci_name i, ci_args i)) (map_of (toolCalls e) ''c1''))
           (map_of (tracingToolCalls r) None) = Some (Some (''Z'', Some ''x=2'')))
   \<and> \<lparr>tc_id = ''c1'', tc_name = ''A'', tc_type = None, tc_args = Some ''x=1''\<rparr>
        \<in> set (tracing_calls sample_dup)
   \<and> \<lparr>n_id = ''c1'', n_name = ''A'', n_index = 0, n_callIndex = 0\<rparr>
        \<in> set (nodes (extractToolCallOrder sample_dup))
   \<and> f_callSequence (extractToolCallFlow sample_dup) = Some [''A'', ''B'', ''A'']"
proof -
  have ev: "\<lparr>tc_id = ''c1'', tc_name = ''A'', tc_type = None, tc_args = Some ''x=1''\<rparr>
        \<in> set (tracing_calls sample_dup)
   \<and> \<lparr>n_id = ''c1'', n_name = ''A'', n_index = 0, n_callIndex = 0\<rparr>
        \<in> set (nodes (extractToolCallOrder sample_dup))"
    by (simp add: sample_dup_calls sample_dup_order)
  then have c: "\<lparr>tc_id = ''c1'', tc_name = ''A'', tc_type = None, tc_args = Some ''x=1''\<rparr>
        \<in> set (tracing_calls sample_dup)" by simp
  from duplicate_call_id_last_vs_first [OF sample_dup_getTools c]
  have "f_callSequence (extractToolCallFlow sample_dup) =
          Some (map n_name (nodes (extractToolCallOrder sample_dup)))" by blast
  with ev show ?thesis
    by (simp add: sample_dup_getTools sample_dup_order)
qed

section \<open>Identifiers of the rendered records\<close>

lemma assignIds_length: "length (assignIdsToTracings ts) = length ts"
  by (simp add: assignIdsToTracings_def)

lemma assignIds_nth:
  "i < length ts \<Longrightarrow> assignIdsToTracings ts ! i = (ts ! i)\<lparr>tr_id := Some (NumId i)\<rparr>"
  by (simp add: assignIdsToTracings_def nth_enumerate_eq)

text \<open>
  Claim C6, as amended. \<open>assignIdsToTracings\<close> returns one copy per input record, in input
  order; the copy at position \<open>i\<close> has the id \<open>i\<close>, whether or not the input record
  carried an id, and every other field of the copy (outputs, score and any field the code does
  not read) is that of the input record.
\<close>

theorem assignIdsToTracings_positional:
  "length (assignIdsToTracings ts) = length ts
   \<and> (\<forall>i<length ts. assignIdsToTracings ts ! i = (ts ! i)\<lparr>tr_id := Some (NumId i)\<rparr>)"
proof (intro conjI allI impI)
  show "length (assignIdsToTracings ts) = length ts"
    by (rule assignIds_length)
next
  fix i assume "i < length ts"
  then show "assignIdsToTracings ts ! i = (ts ! i)\<lparr>tr_id := Some (NumId i)\<rparr>"
    by (rule assignIds_nth)
qed

theorem assignIdsToTracings_positional_witness:
  "(1::nat) < length sample_with_ids
   \<and> assignIdsToTracings sample_with_ids ! 1 =
       \<lparr>tr_id = Some (NumId 1), outputs = None, score = Some 1\<rparr>"
  using assignIdsToTracings_positional [of sample_with_ids]
  by (simp add: sample_with_ids_def)

text \<open>
  Claim C6 as stated fails: a record that carries the id \<open>run-7\<close> at position 0 is given the
  id 0, and a record that carries the id 7 at position 1 is given the id 1.
\<close>

theorem assignIdsToTracings_overwrites_counterexample:
  "tr_id (sample_with_ids ! 0) = Some (StrId ''run-7'')
   \<and> tr_id (assignIdsToTracings sample_with_ids ! 0) = Some (NumId 0)
   \<and> tr_id (sample_with_ids ! 1) = Some (NumId 7)
   \<and> tr_id (assignIdsToTracings sample_with_ids ! 1) = Some (NumId 1)"
  by (simp add: sample_with_ids_def assignIdsToTracings_def)

section \<open>Rendering\<close>

text \<open>
  Claim C9. For an empty input list, with any taxonomy, options and previous content of the
  mount point, \<open>renderUpsetPlot\<close> returns with the mount point holding the new
  \<open>svg\<close> element, whose only child is the "No data" text at the centre, and the (hidden)
  tooltip element; no plot is drawn and \<open>Math.random\<close> is not called. The console
  receives the two log lines, with empty data.
\<close>

theorem renderUpsetPlot_empty:
  "renderUpsetPlot random True (Some []) toolSets opts w =
     Inr \<lparr>children =
            [Svg (nullish (opt_width opts) 640)
                 (nullish (opt_height opts)
                    (nullish (opt_top opts) 80 + 200 + 100 + nullish (opt_bottom opts) 40))
                 [NoDataText (nullish (opt_width opts) 640 / 2)
                    (nullish (opt_height opts)
                       (nullish (opt_top opts) 80 + 200 + 100 + nullish (opt_bottom opts) 40) / 2)],
             TooltipDiv],
          position = Some ''relative'',
          random_calls = random_calls w,
          console = console w @ [LogTools [] [], LogBars [] []]\<rparr>"
proof -
  have ids: "assignIdsToTracings ([] :: tracing list) = []"
    by (simp add: assignIdsToTracings_def)
  have extraction: "getTools [] = Inr (\<lparr>tools = [], tracingToolCalls = []\<rparr>, [])"
    by (simp add: getTools_def)
  have upper: "ProfileUpperBarChart random (random_calls w) [] = ([], random_calls w)"
    by (simp add: ProfileUpperBarChart_def)
  have lower: "ProfileLowerBarChart [] = []"
    by (simp add: ProfileLowerBarChart_def)
  show ?thesis
    by (simp add: renderUpsetPlot_def ids extraction upper lower Let_def)
qed

lemma renderUpsetPlot_clears:
  "renderUpsetPlot random c data ts opts (w\<lparr>children := cs, position := p\<rparr>) =
   (if c then renderUpsetPlot random c data ts opts w
    else Inr (w\<lparr>children := cs, position := p\<rparr>))"
  by (simp add: renderUpsetPlot_def Let_def split: option.splits sum.splits prod.splits)

lemma renderUpsetPlot_children:
  assumes "renderUpsetPlot random True data ts opts w = Inr w1"
  shows "\<exists>wd ht content. children w1 = [Svg wd ht content, TooltipDiv]"
  using assms
  by (auto simp: renderUpsetPlot_def Let_def split: option.splits sum.splits prod.splits)

lemma ProfileUpperBarChart_same_draws:
  assumes "\<forall>k<length tls. random (n' + k) = random (n + k)"
  shows "fst (ProfileUpperBarChart random n' tls) = fst (ProfileUpperBarChart random n tls)"
  unfolding ProfileUpperBarChart_def fst_conv
  by (rule nth_equalityI) (simp_all add: nth_enumerate_eq assms)

lemma renderUpsetPlot_twice_same_draws:
  assumes r1: "renderUpsetPlot random True data ts opts w = Inr w1"
    and same: "\<forall>k. random (random_calls w1 + k) = random (random_calls w + k)"
  shows "\<exists>w2. renderUpsetPlot random True data ts opts w1 = Inr w2 \<and> children w2 = children w1"
proof -
  from r1 obtain d r unknown where d: "data = Some d"
    and g: "getTools (assignIdsToTracings d) = Inr (r, unknown)"
    by (auto simp: renderUpsetPlot_def Let_def split: option.splits sum.splits prod.splits)
  have u: "fst (ProfileUpperBarChart random (random_calls w1) (tools r)) =
           fst (ProfileUpperBarChart random (random_calls w) (tools r))"
    by (rule ProfileUpperBarChart_same_draws) (simp add: same)
  obtain u1 n1 where p1: "ProfileUpperBarChart random (random_calls w) (tools r) = (u1, n1)"
    by (cases "ProfileUpperBarChart random (random_calls w) (tools r)")
  obtain u2 n2 where p2: "ProfileUpperBarChart random (random_calls w1) (tools r) = (u2, n2)"
    by (cases "ProfileUpperBarChart random (random_calls w1) (tools r)")
  from u p1 p2 have "u2 = u1" by simp
  with r1 d g p1 p2 show ?thesis
    by (auto simp: renderUpsetPlot_def Let_def)
qed

lemma sample_B_getTools:
  "getTools (assignIdsToTracings [sample_traceB]) =
     Inr (\<lparr>tools = [''search''],
           tracingToolCalls =
             [(Some (NumId 0),
               \<lparr>toolCalls =
                  [(''c1'', \<lparr>ci_id = ''c1'', ci_name = ''search'', ci_type = None,
                             ci_args = None, ci_status = None, ci_content = None\<rparr>)],
                entry_score = Some 1\<rparr>)]\<rparr>, [])"
  by (simp add: sample_traceB_def assignIdsToTracings_def getTools_def set_add_def Let_def)

text \<open>
  Claim C5 on two renders of the same one-trace input into the same mount point, where
  \<open>Math.random\<close> returns 0 and then 1/2. Both renders return, and the second leaves two
  children (no stale elements), but the importance bar of tool \<open>search\<close> is bound to
  the value -1 after the first render and to 0 after the second: the views differ.
  (When the draws repeat, the views are equal, lemma \<open>renderUpsetPlot_twice_same_draws\<close>.)
\<close>

theorem renderUpsetPlot_twice_differs:
  "(case renderUpsetPlot sample_random True (Some [sample_traceB]) sample_toolSets no_options
           empty_world of
      Inl e \<Rightarrow> False
    | Inr w1 \<Rightarrow>
        (case renderUpsetPlot sample_random True (Some [sample_traceB]) sample_toolSets no_options w1 of
           Inl e \<Rightarrow> False
         | Inr w2 \<Rightarrow>
             plot_bars (children w1) = [\<lparr>toolName = ''search'', shapleyValue = - 1\<rparr>]
           \<and> plot_bars (children w2) = [\<lparr>toolName = ''search'', shapleyValue = 0\<rparr>]
           \<and> length (children w2) = 2
           \<and> children w2 \<noteq> children w1))"
  by (simp add: renderUpsetPlot_def sample_B_getTools ProfileUpperBarChart_def
      ProfileLowerBarChart_def sample_random_def no_options_def empty_world_def nullish_def
      Let_def shapleyDomain_def maxScore_def)

end
